theory Spec2Isabelle
  imports Main "HOL-Library.Sublist"
begin

section \<open>Data model of the orchestrator (src/index.ts)\<close>

text \<open>
  The class \<open>MicrosoftRewardsBot\<close> drives every account through a desktop and a
  mobile browser session. Browser, login, dashboard and task code are collaborators imported
  from other modules; the orchestrator only calls them. A call of a collaborator is recorded
  as an \<open>event\<close>, and what the collaborator answers (a value, or a fault that it
  throws) is read from a \<open>script\<close> that is an input of the run. Calls of the logger
  are left out; \<open>cluster.fork\<close>, \<open>worker.send\<close> and \<open>process.exit\<close> are
  recorded and taken not to throw.
\<close>

record proxy =
  proxy_username :: string
  proxy_password :: string

record account =
  email :: string
  password :: string
  proxy :: proxy

record workers_config =
  doDailySet :: bool
  doMorePromotions :: bool
  doPunchCards :: bool
  doDesktopSearch :: bool
  doMobileSearch :: bool

record config =
  clusters :: int
  runOnZeroPoints :: bool
  workers :: workers_config

text \<open>
  Of the dashboard data the orchestrator reads \<open>userStatus.availablePoints\<close> (for a
  log line) and tests \<open>userStatus.counters.mobileSearch\<close> for presence (\<open>None\<close>
  is the absent counter, for which \<open>!mobileSearch\<close> holds). The counter's own type is a
  parameter.
\<close>

record 'c dashboard =
  availablePoints :: int
  mobileSearch :: "'c option"

text \<open>
  A fault is anything thrown. \<open>DashboardUnreachable\<close> is the value thrown by
  \<open>Desktop\<close> itself (line 145); \<open>InvalidConfig\<close> is the partitioner's;
  \<open>Thrown\<close> stands for whatever a collaborator throws.
\<close>

datatype fault = DashboardUnreachable | InvalidConfig | Thrown string

datatype event =
    CreateBrowser string proxy bool
  | NewPage
  | Pages
  | PageClose
  | Authenticate string string
  | Login string string
  | GoHome
  | GetDashboardData
  | GetEarnablePoints
  | DoDailySet
  | DoMorePromotions
  | DoPunchCard
  | DoSearch bool
  | BrowserClose
  | Fork nat
  | Send nat "account list"
  | OnMessage
  | ProcessExit int

text \<open>
  The mutable fields of the bot, and the calls made so far. \<open>collectedPoints\<close> and
  \<open>activeWorkers\<close> are JavaScript numbers that only ever hold point and process
  counts; they are modelled as integers.
\<close>

record bot =
  collectedPoints :: int
  activeWorkers :: int
  trace :: "event list"

text \<open>
  How an asynchronous method ends, and the state it leaves: it returns, it throws, the
  process exits with a code, or the run has not come back within the answers that its
  script holds (\<open>NoReturn\<close>).
\<close>

datatype result = Returned bot | Raised fault bot | Exited int bot | NoReturn bot

text \<open>
  The answers of the collaborators during one phase of one account, one field per call
  site. The page-pruning loop calls \<open>pages[0]?.close()\<close> and \<open>browser.pages()\<close>
  once per iteration; \<open>prune_ans\<close> lists the answers to these pairs of calls in order,
  the number being the length of the array that \<open>browser.pages()\<close> returns.
\<close>

record 'c script =
  createBrowser_ans :: "fault + unit"
  newPage_ans :: "fault + unit"
  pages_ans :: "fault + nat"
  prune_ans :: "((fault + unit) \<times> (fault + nat)) list"
  authenticate_ans :: "fault + unit"
  login_ans :: "fault + unit"
  goHome_ans :: "fault + bool"
  getDashboardData_ans :: "fault + 'c dashboard"
  getEarnablePoints_ans :: "fault + int"
  doDailySet_ans :: "fault + unit"
  doMorePromotions_ans :: "fault + unit"
  doPunchCard_ans :: "fault + unit"
  doSearch_ans :: "fault + unit"
  browserClose_ans :: "fault + unit"

section \<open>The account partitioner\<close>

text \<open>
  Modelled from the spec: the chunks of \<open>chunkArray\<close> (below). \<open>chunksOf k q r xs\<close>
  cuts \<open>k\<close> consecutive chunks off \<open>xs\<close>, the first \<open>r\<close> of them of size
  \<open>q + 1\<close> and the others of size \<open>q\<close>.
\<close>

fun chunksOf :: "nat \<Rightarrow> nat \<Rightarrow> nat \<Rightarrow> 'a list \<Rightarrow> 'a list list" where
  "chunksOf 0 q r xs = []"
| "chunksOf (Suc k) q r xs =
     (let m = (if 0 < r then Suc q else q)
      in take m xs # chunksOf k q (r - 1) (drop m xs))"

text \<open>
  Modelled from the spec: \<open>chunkArray\<close> of \<open>util/Utils\<close>, which
  \<open>runMaster\<close> calls at line 71, is not among the sources. The specification (4.1)
  says that it splits the accounts into \<open>n\<close> chunks as evenly as possible, in the
  original order, with sizes that differ by at most one, and that it fails with
  \<open>InvalidConfig\<close> when \<open>n < 1\<close>. Here the first \<open>length mod n\<close> chunks
  take one element more than the others.
\<close>

definition chunkArray :: "'a list \<Rightarrow> int \<Rightarrow> fault + 'a list list" where
  "chunkArray arr n =
     (if n < 1 then Inl InvalidConfig
      else Inr (chunksOf (nat n) (length arr div nat n) (length arr mod nat n) arr))"

section \<open>Calling collaborators\<close>

definition emit :: "event \<Rightarrow> bot \<Rightarrow> bot" where
  "emit ev s = s\<lparr>trace := trace s @ [ev]\<rparr>"

text \<open>
  \<open>call ev ans k\<close> is \<open>const v = await collaborator(...)\<close> followed by the rest
  \<open>k v\<close> of the method: the call is recorded; if the collaborator throws, the method
  ends there with that fault (no \<open>try\<close> surrounds any call in the file).
\<close>

definition call :: "event \<Rightarrow> fault + 'a \<Rightarrow> ('a \<Rightarrow> bot \<Rightarrow> result) \<Rightarrow> bot \<Rightarrow> result" where
  "call ev ans k s =
     (case ans of Inl f \<Rightarrow> Raised f (emit ev s) | Inr v \<Rightarrow> k v (emit ev s))"

text \<open>\<open>if (flag) { await executor(...) }\<close> followed by the rest \<open>k\<close>.\<close>

definition whenEnabled :: "bool \<Rightarrow> event \<Rightarrow> fault + unit \<Rightarrow> (bot \<Rightarrow> result) \<Rightarrow> bot \<Rightarrow> result" where
  "whenEnabled flag ev ans k = (if flag then call ev ans (\<lambda>_. k) else k)"

section \<open>The session phases\<close>

text \<open>
  Lines 130-133 and 194-197:
  \<^verbatim>\<open>while (pages.length > 2) { await pages[0]?.close(); pages = await browser.pages() }\<close>
  with \<open>n\<close> the current \<open>pages.length\<close>. When the loop wants another iteration and
  the script holds no further answers, the run has not returned.
\<close>

fun prunePages :: "nat \<Rightarrow> ((fault + unit) \<times> (fault + nat)) list \<Rightarrow> (bot \<Rightarrow> result) \<Rightarrow> bot \<Rightarrow> result" where
  "prunePages n [] k s = (if 2 < n then NoReturn s else k s)"
| "prunePages n ((c, p) # rs) k s =
     (if 2 < n then
        (case c of
           Inl f \<Rightarrow> Raised f (emit PageClose s)
         | Inr _ \<Rightarrow>
             (case p of
                Inl f \<Rightarrow> Raised f (emit Pages (emit PageClose s))
              | Inr n' \<Rightarrow> prunePages n' rs k (emit Pages (emit PageClose s))))
      else k s)"

text \<open>
  Lines 125-141 of \<open>Desktop\<close> and 189-204 of \<open>Mobile\<close>, which differ only in the
  flag passed to \<open>createBrowser\<close>: create the browser, open a page, prune the pages,
  authenticate at the proxy, log in; \<open>k\<close> is the rest of the method.
\<close>

definition openSession :: "account \<Rightarrow> bool \<Rightarrow> 'c script \<Rightarrow> (bot \<Rightarrow> result) \<Rightarrow> bot \<Rightarrow> result" where
  "openSession account isMobile sc k =
     call (CreateBrowser (email account) (proxy account) isMobile) (createBrowser_ans sc) (\<lambda>_.
     call NewPage (newPage_ans sc) (\<lambda>_.
     call Pages (pages_ans sc) (\<lambda>n.
     prunePages n (prune_ans sc) (
     call (Authenticate (proxy_username (proxy account)) (proxy_password (proxy account)))
       (authenticate_ans sc) (\<lambda>_.
     call (Login (email account) (password account)) (login_ans sc) (\<lambda>_.
     k))))))"

text \<open>Lines 143-184 of \<open>Desktop\<close>, from \<open>goHome\<close> to the end.\<close>

definition desktopBody :: "config \<Rightarrow> 'c script \<Rightarrow> bot \<Rightarrow> result" where
  "desktopBody cfg sc =
     call GoHome (goHome_ans sc) (\<lambda>wentHome.
     if \<not> wentHome then Raised DashboardUnreachable
     else
     call GetDashboardData (getDashboardData_ans sc) (\<lambda>data.
     call GetEarnablePoints (getEarnablePoints_ans sc) (\<lambda>earnablePoints s0.
     let s = s0\<lparr>collectedPoints := earnablePoints\<rparr> in
     if \<not> runOnZeroPoints cfg \<and> collectedPoints s = 0
     then call BrowserClose (browserClose_ans sc) (\<lambda>_. Returned) s
     else
       (whenEnabled (doDailySet (workers cfg)) DoDailySet (doDailySet_ans sc) (
        whenEnabled (doMorePromotions (workers cfg)) DoMorePromotions (doMorePromotions_ans sc) (
        whenEnabled (doPunchCards (workers cfg)) DoPunchCard (doPunchCard_ans sc) (
        whenEnabled (doDesktopSearch (workers cfg)) (DoSearch False) (doSearch_ans sc) (
        call BrowserClose (browserClose_ans sc) (\<lambda>_. Returned)))))) s)))"

text \<open>Lines 124-185.\<close>

definition Desktop :: "config \<Rightarrow> account \<Rightarrow> 'c script \<Rightarrow> bot \<Rightarrow> result" where
  "Desktop cfg account sc = openSession account False sc (desktopBody cfg sc)"

text \<open>
  Lines 206-231 of \<open>Mobile\<close>, from \<open>goHome\<close> to the end. The answer of \<open>goHome\<close>
  is not looked at here.
\<close>

definition mobileBody :: "config \<Rightarrow> 'c script \<Rightarrow> bot \<Rightarrow> result" where
  "mobileBody cfg sc =
     call GoHome (goHome_ans sc) (\<lambda>_.
     call GetDashboardData (getDashboardData_ans sc) (\<lambda>data.
     if mobileSearch data = None
     then call BrowserClose (browserClose_ans sc) (\<lambda>_. Returned)
     else
       whenEnabled (doMobileSearch (workers cfg)) (DoSearch True) (doSearch_ans sc) (
       call GetEarnablePoints (getEarnablePoints_ans sc) (\<lambda>earnablePoints s0.
       let s = s0\<lparr>collectedPoints :=
                   (if earnablePoints = 0 then collectedPoints s0
                    else collectedPoints s0 - earnablePoints)\<rparr>
       in call BrowserClose (browserClose_ans sc) (\<lambda>_. Returned) s))))"

text \<open>Lines 188-232.\<close>

definition Mobile :: "config \<Rightarrow> account \<Rightarrow> 'c script \<Rightarrow> bot \<Rightarrow> result" where
  "Mobile cfg account sc = openSession account True sc (mobileBody cfg sc)"

section \<open>The account sequencer\<close>

text \<open>
  One account of the chunk together with the answers the collaborators give during its
  desktop phase and during its mobile phase (the latter unused when the phase is skipped).
\<close>

record 'c visit =
  visit_account :: account
  desktop_script :: "'c script"
  mobile_script :: "'c script"

text \<open>The \<open>for\<close> loop of \<open>runTasks\<close>, lines 101-116; \<open>continue\<close> is the recursive call.\<close>

fun runLoop :: "config \<Rightarrow> 'c visit list \<Rightarrow> bot \<Rightarrow> result" where
  "runLoop cfg [] s = Returned s"
| "runLoop cfg (v # vs) s =
     (case Desktop cfg (visit_account v) (desktop_script v) s of
        Returned s1 \<Rightarrow>
          if \<not> runOnZeroPoints cfg \<and> collectedPoints s1 = 0 then runLoop cfg vs s1
          else
            (case Mobile cfg (visit_account v) (mobile_script v) s1 of
               Returned s2 \<Rightarrow> runLoop cfg vs s2
             | r \<Rightarrow> r)
      | r \<Rightarrow> r)"

text \<open>Lines 100-121: the loop, then \<open>process.exit(0)\<close>.\<close>

definition runTasks :: "config \<Rightarrow> 'c visit list \<Rightarrow> bot \<Rightarrow> result" where
  "runTasks cfg vs s =
     (case runLoop cfg vs s of
        Returned s' \<Rightarrow> Exited 0 (emit (ProcessExit 0) s')
      | r \<Rightarrow> r)"

text \<open>
  The points gate as the specification words it (4.5); the code has the expression inline
  at lines 108 and 156.
\<close>

definition shouldSkip :: "bool \<Rightarrow> int \<Rightarrow> bool" where
  "shouldSkip runOnZero points = (\<not> runOnZero \<and> points = 0)"

section \<open>The process distributor\<close>

text \<open>The constructor, lines 28-47: \<open>activeWorkers\<close> starts at \<open>config.clusters\<close>.\<close>

definition newBot :: "config \<Rightarrow> bot" where
  "newBot cfg = \<lparr>collectedPoints = 0, activeWorkers = clusters cfg, trace = []\<rparr>"

text \<open>
  The loop of lines 73-77, \<open>i\<close> counting up from 0; the worker that the \<open>i\<close>-th
  \<open>cluster.fork()\<close> returns is identified by \<open>i\<close>.
\<close>

fun forkWorkers :: "nat \<Rightarrow> account list list \<Rightarrow> bot \<Rightarrow> bot" where
  "forkWorkers i [] s = s"
| "forkWorkers i (chunk # chunks) s =
     forkWorkers (Suc i) chunks (emit (Send i chunk) (emit (Fork i) s))"

text \<open>Lines 68-77 of \<open>runMaster\<close>; the handler registered at line 79 is \<open>onExit\<close>.\<close>

definition runMaster :: "config \<Rightarrow> account list \<Rightarrow> bot \<Rightarrow> result" where
  "runMaster cfg accounts s =
     (case chunkArray accounts (clusters cfg) of
        Inl f \<Rightarrow> Raised f s
      | Inr accountChunks \<Rightarrow> Returned (forkWorkers 0 accountChunks s))"

text \<open>Lines 79-89: the handler of the cluster's \<open>exit\<close> event.\<close>

definition onExit :: "nat \<Rightarrow> int \<Rightarrow> bot \<Rightarrow> result" where
  "onExit worker code s0 =
     (let s = s0\<lparr>activeWorkers := activeWorkers s0 - 1\<rparr>
      in if activeWorkers s = 0 then Exited 0 (emit (ProcessExit 0) s) else Returned s)"

text \<open>
  The coordinator's event loop: the \<open>exit\<close> events (worker, code) are handled one after
  the other in their order of arrival, until the process exits.
\<close>

fun deliver :: "(nat \<times> int) list \<Rightarrow> bot \<Rightarrow> result" where
  "deliver [] s = Returned s"
| "deliver ((worker, code) # signals) s =
     (case onExit worker code s of
        Returned s' \<Rightarrow> deliver signals s'
      | r \<Rightarrow> r)"

text \<open>Lines 92-98: a worker registers its message handler, which runs \<open>runTasks\<close>.\<close>

definition runWorker :: "bot \<Rightarrow> result" where
  "runWorker s = Returned (emit OnMessage s)"

text \<open>Lines 53-66, \<open>isPrimary\<close> being \<open>cluster.isPrimary\<close>.\<close>

definition run :: "config \<Rightarrow> bool \<Rightarrow> 'c visit list \<Rightarrow> bot \<Rightarrow> result" where
  "run cfg isPrimary vs s =
     (if 1 < clusters cfg then
        (if isPrimary then runMaster cfg (map visit_account vs) s else runWorker s)
      else runTasks cfg vs s)"

text \<open>Observations on a trace.\<close>

fun isFork :: "event \<Rightarrow> bool" where
  "isFork (Fork i) = True"
| "isFork e = False"

fun isSessionCall :: "event \<Rightarrow> bool" where
  "isSessionCall (Fork i) = False"
| "isSessionCall (Send i c) = False"
| "isSessionCall OnMessage = False"
| "isSessionCall (ProcessExit c) = False"
| "isSessionCall e = True"

fun isOpening :: "event \<Rightarrow> bool" where
  "isOpening NewPage = True"
| "isOpening Pages = True"
| "isOpening PageClose = True"
| "isOpening (Authenticate u p) = True"
| "isOpening (Login e p) = True"
| "isOpening e = False"

fun isMobileStart :: "event \<Rightarrow> bool" where
  "isMobileStart (CreateBrowser e p m) = m"
| "isMobileStart e = False"

fun finalState :: "result \<Rightarrow> bot" where
  "finalState (Returned s) = s"
| "finalState (Raised f s) = s"
| "finalState (Exited c s) = s"
| "finalState (NoReturn s) = s"

text \<open>The calls that a run started in state \<open>s\<close> has added to the trace.\<close>

definition newEvents :: "bot \<Rightarrow> result \<Rightarrow> event list" where
  "newEvents s r = drop (length (trace s)) (trace (finalState r))"

text \<open>
  The desktop executors as the specification describes them (4.4 and 9): a fixed ordered list
  of executors, each with its own flag, of which the enabled ones run.
\<close>

definition desktopPlan :: "config \<Rightarrow> event list" where
  "desktopPlan cfg =
     map fst (filter snd
       [(DoDailySet, doDailySet (workers cfg)),
        (DoMorePromotions, doMorePromotions (workers cfg)),
        (DoPunchCard, doPunchCards (workers cfg)),
        (DoSearch False, doDesktopSearch (workers cfg))])"

text \<open>
  \<open>unclosed f s r\<close>: the run \<open>r\<close> started in \<open>s\<close> has ended by throwing \<open>f\<close>, and
  \<open>browser.close\<close> is not among the calls it made.
\<close>

definition unclosed :: "fault \<Rightarrow> bot \<Rightarrow> result \<Rightarrow> bool" where
  "unclosed f s r =
     (case r of
        Raised g s' \<Rightarrow> g = f \<and> count_list (newEvents s r) BrowserClose = 0
      | _ \<Rightarrow> False)"

text \<open>
  Flagged answers in call order: the fault of the first enabled one that throws, if any.
\<close>

fun firstFault :: "(bool \<times> (fault + unit)) list \<Rightarrow> fault option" where
  "firstFault [] = None"
| "firstFault ((flag, ans) # rest) =
     (if flag then (case ans of Inl f \<Rightarrow> Some f | Inr _ \<Rightarrow> firstFault rest)
      else firstFault rest)"

text \<open>The flags and the answers of the four desktop executors, in the order of lines 163-181.\<close>

definition desktopExecutors :: "config \<Rightarrow> 'c script \<Rightarrow> (bool \<times> (fault + unit)) list" where
  "desktopExecutors cfg sc =
     [(doDailySet (workers cfg), doDailySet_ans sc),
      (doMorePromotions (workers cfg), doMorePromotions_ans sc),
      (doPunchCards (workers cfg), doPunchCard_ans sc),
      (doDesktopSearch (workers cfg), doSearch_ans sc)]"

text \<open>
  Answers to rounds of the page-pruning loop in which both calls return, \<open>browser.pages()\<close>
  returning arrays of the given lengths.
\<close>

definition pruneRounds :: "nat list \<Rightarrow> ((fault + unit) \<times> (fault + nat)) list" where
  "pruneRounds counts = map (\<lambda>c. (Inr (), Inr c)) counts"

text \<open>
  The accounts (by email) for which a run has started a desktop session, in order: the
  first arguments of its \<open>createBrowser(..., false)\<close> calls.
\<close>

fun desktopStarts :: "event list \<Rightarrow> string list" where
  "desktopStarts [] = []"
| "desktopStarts (CreateBrowser e p m # evs) =
     (if m then desktopStarts evs else e # desktopStarts evs)"
| "desktopStarts (ev # evs) = desktopStarts evs"

section \<open>Sample inputs\<close>

definition demo_account :: account where
  "demo_account =
     \<lparr>email = ''a@b'', password = ''pw'',
      proxy = \<lparr>proxy_username = ''u'', proxy_password = ''p''\<rparr>\<rparr>"

definition demo_config :: config where
  "demo_config =
     \<lparr>clusters = 1, runOnZeroPoints = False,
      workers = \<lparr>doDailySet = True, doMorePromotions = False, doPunchCards = True,
                 doDesktopSearch = True, doMobileSearch = False\<rparr>\<rparr>"

text \<open>Every collaborator answers; the browser opens with three pages; 30 points to earn.\<close>

definition demo_script :: "unit script" where
  "demo_script =
     \<lparr>createBrowser_ans = Inr (), newPage_ans = Inr (), pages_ans = Inr 3,
      prune_ans = [(Inr (), Inr 2)], authenticate_ans = Inr (), login_ans = Inr (),
      goHome_ans = Inr True,
      getDashboardData_ans = Inr \<lparr>availablePoints = 100, mobileSearch = Some ()\<rparr>,
      getEarnablePoints_ans = Inr 30, doDailySet_ans = Inr (), doMorePromotions_ans = Inr (),
      doPunchCard_ans = Inr (), doSearch_ans = Inr (), browserClose_ans = Inr ()\<rparr>"

text \<open>The state in which \<open>demo_script\<close> leaves the bot once the session is open.\<close>

definition demo_opened :: "bool \<Rightarrow> bot" where
  "demo_opened isMobile =
     \<lparr>collectedPoints = 0, activeWorkers = 1,
      trace = [CreateBrowser ''a@b'' \<lparr>proxy_username = ''u'', proxy_password = ''p''\<rparr> isMobile,
               NewPage, Pages, PageClose, Pages, Authenticate ''u'' ''p'', Login ''a@b'' ''pw'']\<rparr>"

text \<open>The sample account with 30 points to earn at the desktop and 10 left after the mobile search.\<close>

definition demo_visit :: "unit visit" where
  "demo_visit =
     \<lparr>visit_account = demo_account, desktop_script = demo_script,
      mobile_script = demo_script\<lparr>getEarnablePoints_ans := Inr 10\<rparr>\<rparr>"

section \<open>Properties of the partitioner\<close>

lemma length_chunksOf: "length (chunksOf k q r xs) = k"
  by (induction k arbitrary: r xs) (simp_all add: Let_def)

lemma concat_chunksOf: "concat (chunksOf k q r xs) = take (k * q + min r k) xs"
proof (induction k arbitrary: r xs)
  case 0
  show ?case by simp
next
  case (Suc k)
  show ?case
  proof (cases "0 < r")
    case True
    then have m: "min r (Suc k) = Suc (min (r - 1) k)" by (cases r) simp_all
    have "concat (chunksOf (Suc k) q r xs) =
        take (Suc q) xs @ take (k * q + min (r - 1) k) (drop (Suc q) xs)"
      using True Suc.IH by simp
    also have "\<dots> = take (Suc q + (k * q + min (r - 1) k)) xs"
      by (simp only: take_add)
    finally show ?thesis using m by (simp add: add.assoc)
  next
    case False
    have "concat (chunksOf (Suc k) q r xs) = take q xs @ take (k * q) (drop q xs)"
      using False Suc.IH by simp
    also have "\<dots> = take (q + k * q) xs"
      by (simp only: take_add)
    finally show ?thesis using False by simp
  qed
qed

lemma sizes_chunksOf:
  "length xs = k * q + r \<Longrightarrow> r \<le> k \<Longrightarrow> c \<in> set (chunksOf k q r xs) \<Longrightarrow>
     length c = q \<or> length c = Suc q"
proof (induction k arbitrary: r xs)
  case 0
  then show ?case by simp
next
  case (Suc k)
  show ?case
  proof (cases "0 < r")
    case True
    have len: "length (drop (Suc q) xs) = k * q + (r - 1)"
      using Suc.prems(1) True by simp
    have le: "r - 1 \<le> k" using Suc.prems(2) by simp
    from Suc.prems(3) True
    have "c = take (Suc q) xs \<or> c \<in> set (chunksOf k q (r - 1) (drop (Suc q) xs))"
      by simp
    then show ?thesis
    proof
      assume "c = take (Suc q) xs"
      then show ?thesis using Suc.prems(1) True by simp
    next
      assume "c \<in> set (chunksOf k q (r - 1) (drop (Suc q) xs))"
      then show ?thesis using Suc.IH [OF len le] by simp
    qed
  next
    case False
    then have r0: "r = 0" by simp
    have len: "length (drop q xs) = k * q + 0"
      using Suc.prems(1) r0 by simp
    from Suc.prems(3) r0
    have "c = take q xs \<or> c \<in> set (chunksOf k q 0 (drop q xs))"
      by simp
    then show ?thesis
    proof
      assume "c = take q xs"
      then show ?thesis using Suc.prems(1) r0 by simp
    next
      assume "c \<in> set (chunksOf k q 0 (drop q xs))"
      then show ?thesis using Suc.IH [OF len] by simp
    qed
  qed
qed

lemma nth_concat_slice:
  "i < length xss \<Longrightarrow>
     xss ! i = take (length (xss ! i)) (drop (length (concat (take i xss))) (concat xss))"
proof (induction xss arbitrary: i)
  case Nil
  then show ?case by simp
next
  case (Cons xs xss)
  show ?case
  proof (cases i)
    case 0
    then show ?thesis by simp
  next
    case (Suc j)
    then have "j < length xss" using Cons.prems by simp
    from Cons.IH [OF this] show ?thesis using Suc by simp
  qed
qed

text \<open>
  C2. For every account list and every worker count \<open>n \<ge> 1\<close> the partitioner returns
  exactly \<open>n\<close> chunks whose concatenation is the input list, whose sizes differ by at
  most one, and each of which is the contiguous slice of the input that starts where the
  chunks before it end (so the chunks keep the order and do not overlap).
\<close>

theorem chunkArray_partition:
  assumes "1 \<le> n"
  shows "\<exists>chunks. chunkArray accounts n = Inr chunks
           \<and> int (length chunks) = n
           \<and> concat chunks = accounts
           \<and> (\<forall>c \<in> set chunks. \<forall>d \<in> set chunks. length c \<le> length d + 1)
           \<and> (\<forall>i < length chunks.
                 chunks ! i = take (length (chunks ! i))
                                (drop (length (concat (take i chunks))) accounts))"
proof -
  define k where "k = nat n"
  define q where "q = length accounts div k"
  define r where "r = length accounts mod k"
  define chunks where "chunks = chunksOf k q r accounts"
  have kpos: "0 < k" using assms by (simp add: k_def)
  have len: "length accounts = k * q + r" by (simp add: q_def r_def)
  have rk: "r \<le> k" using kpos by (simp add: r_def less_imp_le)
  have 1: "chunkArray accounts n = Inr chunks"
    using assms by (simp add: chunkArray_def chunks_def k_def q_def r_def)
  have 2: "int (length chunks) = n"
    using assms by (simp add: chunks_def length_chunksOf k_def)
  have 3: "concat chunks = accounts"
    using len rk by (simp add: chunks_def concat_chunksOf)
  have 4: "\<forall>c \<in> set chunks. \<forall>d \<in> set chunks. length c \<le> length d + 1"
  proof (intro ballI)
    fix c d assume "c \<in> set chunks" "d \<in> set chunks"
    then have "length c = q \<or> length c = Suc q" "length d = q \<or> length d = Suc q"
      using sizes_chunksOf [OF len rk] by (simp_all add: chunks_def)
    then show "length c \<le> length d + 1" by auto
  qed
  have 5: "\<forall>i < length chunks.
      chunks ! i = take (length (chunks ! i)) (drop (length (concat (take i chunks))) accounts)"
    using nth_concat_slice [of _ chunks] 3 by simp
  from 1 2 3 4 5 show ?thesis by blast
qed

theorem chunkArray_partition_witness:
  "(1::int) \<le> 3 \<and> chunkArray [1, 2, 3, 4, 5, 6, 7 :: nat] 3 = Inr [[1, 2, 3], [4, 5], [6, 7]]"
proof -
  have h: "(1::int) \<le> 3" by simp
  have c: "chunkArray [1, 2, 3, 4, 5, 6, 7 :: nat] 3 = Inr [[1, 2, 3], [4, 5], [6, 7]]"
    by code_simp
  from chunkArray_partition [OF h, of "[1, 2, 3, 4, 5, 6, 7 :: nat]"] h c show ?thesis
    by blast
qed

section \<open>Properties of the session phases\<close>

lemma prunePages_shape:
  "(\<exists>evs. (\<forall>e\<in>set evs. isOpening e) \<and> (\<forall>k. prunePages n rs k s = NoReturn (s\<lparr>trace := trace s @ evs\<rparr>))) \<or>
   (\<exists>evs f. (\<forall>e\<in>set evs. isOpening e) \<and> (\<forall>k. prunePages n rs k s = Raised f (s\<lparr>trace := trace s @ evs\<rparr>))) \<or>
   (\<exists>evs. (\<forall>e\<in>set evs. isOpening e) \<and> (\<forall>k. prunePages n rs k s = k (s\<lparr>trace := trace s @ evs\<rparr>)))"
proof (induction rs arbitrary: n s)
  case Nil
  show ?case
  proof (cases "2 < n")
    case True
    then have "\<forall>k. prunePages n [] k s = NoReturn (s\<lparr>trace := trace s @ []\<rparr>)" by simp
    then show ?thesis by (metis empty_iff list.set(1))
  next
    case False
    then have "\<forall>k. prunePages n [] k s = k (s\<lparr>trace := trace s @ []\<rparr>)" by simp
    then show ?thesis by (metis empty_iff list.set(1))
  qed
next
  case (Cons a rs)
  obtain c p where a: "a = (c, p)" by (cases a)
  show ?case
  proof (cases "2 < n")
    case False
    then have "\<forall>k. prunePages n (a # rs) k s = k (s\<lparr>trace := trace s @ []\<rparr>)" by (simp add: a)
    then show ?thesis by (metis empty_iff list.set(1))
  next
    case True
    show ?thesis
    proof (cases c)
      case (Inl f)
      have "\<forall>k. prunePages n (a # rs) k s = Raised f (s\<lparr>trace := trace s @ [PageClose]\<rparr>)"
        using True Inl by (simp add: a emit_def)
      moreover have "\<forall>e\<in>set [PageClose]. isOpening e" by simp
      ultimately show ?thesis by blast
    next
      case (Inr u)
      show ?thesis
      proof (cases p)
        case (Inl f)
        have "\<forall>k. prunePages n (a # rs) k s = Raised f (s\<lparr>trace := trace s @ [PageClose, Pages]\<rparr>)"
          using True Inl Inr by (simp add: a emit_def)
        moreover have "\<forall>e\<in>set [PageClose, Pages]. isOpening e" by simp
        ultimately show ?thesis by blast
      next
        case (Inr n')
        let ?s = "s\<lparr>trace := trace s @ [PageClose, Pages]\<rparr>"
        have step: "\<forall>k. prunePages n (a # rs) k s = prunePages n' rs k ?s"
          using True Inr \<open>c = Inr u\<close> by (simp add: a emit_def)
        from Cons.IH [of n' ?s] show ?thesis
        proof (elim disjE exE conjE)
          fix evs
          assume o: "\<forall>e\<in>set evs. isOpening e"
            and r: "\<forall>k. prunePages n' rs k ?s = NoReturn (?s\<lparr>trace := trace ?s @ evs\<rparr>)"
          have "\<forall>k. prunePages n (a # rs) k s = NoReturn (s\<lparr>trace := trace s @ (PageClose # Pages # evs)\<rparr>)"
            using step r by simp
          moreover have "\<forall>e\<in>set (PageClose # Pages # evs). isOpening e" using o by simp
          ultimately show ?thesis by blast
        next
          fix evs f
          assume o: "\<forall>e\<in>set evs. isOpening e"
            and r: "\<forall>k. prunePages n' rs k ?s = Raised f (?s\<lparr>trace := trace ?s @ evs\<rparr>)"
          have "\<forall>k. prunePages n (a # rs) k s = Raised f (s\<lparr>trace := trace s @ (PageClose # Pages # evs)\<rparr>)"
            using step r by simp
          moreover have "\<forall>e\<in>set (PageClose # Pages # evs). isOpening e" using o by simp
          ultimately show ?thesis by blast
        next
          fix evs
          assume o: "\<forall>e\<in>set evs. isOpening e"
            and r: "\<forall>k. prunePages n' rs k ?s = k (?s\<lparr>trace := trace ?s @ evs\<rparr>)"
          have "\<forall>k. prunePages n (a # rs) k s = k (s\<lparr>trace := trace s @ (PageClose # Pages # evs)\<rparr>)"
            using step r by simp
          moreover have "\<forall>e\<in>set (PageClose # Pages # evs). isOpening e" using o by simp
          ultimately show ?thesis by blast
        qed
      qed
    qed
  qed
qed


lemma openSession_shape:
  "(\<exists>evs. (\<forall>e\<in>set evs. isOpening e) \<and>
      (\<forall>k. openSession a m sc k s =
            NoReturn (s\<lparr>trace := trace s @ CreateBrowser (email a) (proxy a) m # evs\<rparr>))) \<or>
   (\<exists>evs f. (\<forall>e\<in>set evs. isOpening e) \<and>
      (\<forall>k. openSession a m sc k s =
            Raised f (s\<lparr>trace := trace s @ CreateBrowser (email a) (proxy a) m # evs\<rparr>))) \<or>
   (\<exists>evs. (\<forall>e\<in>set evs. isOpening e) \<and>
      (\<forall>k. openSession a m sc k s =
            k (s\<lparr>trace := trace s @ CreateBrowser (email a) (proxy a) m # evs\<rparr>)))"
    (is "?N \<or> ?R \<or> ?K")
proof -
  let ?cb = "CreateBrowser (email a) (proxy a) m"
  let ?au = "Authenticate (proxy_username (proxy a)) (proxy_password (proxy a))"
  let ?lg = "Login (email a) (password a)"
  have raisedI: "?R" if "\<forall>k. openSession a m sc k s = Raised f (s\<lparr>trace := trace s @ ?cb # evs\<rparr>)"
    "\<forall>e\<in>set evs. isOpening e" for f evs
    using that by blast
  show ?thesis
  proof (cases "createBrowser_ans sc")
    case (Inl f)
    then have "\<forall>k. openSession a m sc k s = Raised f (s\<lparr>trace := trace s @ ?cb # []\<rparr>)"
      by (simp add: openSession_def call_def emit_def)
    from raisedI [OF this] have ?R by simp
        then show ?thesis by blast
  next
    case cb: (Inr u1)
    show ?thesis
    proof (cases "newPage_ans sc")
      case (Inl f)
      then have "\<forall>k. openSession a m sc k s = Raised f (s\<lparr>trace := trace s @ ?cb # [NewPage]\<rparr>)"
        using cb by (simp add: openSession_def call_def emit_def)
      from raisedI [OF this] have ?R by simp
        then show ?thesis by blast
    next
      case np: (Inr u2)
      show ?thesis
      proof (cases "pages_ans sc")
        case (Inl f)
        then have "\<forall>k. openSession a m sc k s =
            Raised f (s\<lparr>trace := trace s @ ?cb # [NewPage, Pages]\<rparr>)"
          using cb np by (simp add: openSession_def call_def emit_def)
        from raisedI [OF this] have ?R by simp
        then show ?thesis by blast
      next
        case pg: (Inr n)
        let ?s = "s\<lparr>trace := trace s @ [?cb, NewPage, Pages]\<rparr>"
        let ?rest = "\<lambda>k. call ?au (authenticate_ans sc) (\<lambda>_. call ?lg (login_ans sc) (\<lambda>_. k))"
        have step: "\<forall>k. openSession a m sc k s = prunePages n (prune_ans sc) (?rest k) ?s"
          using cb np pg by (simp add: openSession_def call_def emit_def)
        from prunePages_shape [of n "prune_ans sc" ?s] show ?thesis
        proof (elim disjE exE conjE)
          fix evs
          assume o: "\<forall>e\<in>set evs. isOpening e"
            and r: "\<forall>k. prunePages n (prune_ans sc) k ?s = NoReturn (?s\<lparr>trace := trace ?s @ evs\<rparr>)"
          have "\<forall>k. openSession a m sc k s =
              NoReturn (s\<lparr>trace := trace s @ ?cb # (NewPage # Pages # evs)\<rparr>)"
            using step r by simp
          moreover have "\<forall>e\<in>set (NewPage # Pages # evs). isOpening e" using o by simp
          ultimately show ?thesis by blast
        next
          fix evs f
          assume o: "\<forall>e\<in>set evs. isOpening e"
            and r: "\<forall>k. prunePages n (prune_ans sc) k ?s = Raised f (?s\<lparr>trace := trace ?s @ evs\<rparr>)"
          have "\<forall>k. openSession a m sc k s =
              Raised f (s\<lparr>trace := trace s @ ?cb # (NewPage # Pages # evs)\<rparr>)"
            using step r by simp
          from raisedI [OF this] o have ?R by simp
            then show ?thesis by blast
        next
          fix evs
          assume o: "\<forall>e\<in>set evs. isOpening e"
            and r: "\<forall>k. prunePages n (prune_ans sc) k ?s = k (?s\<lparr>trace := trace ?s @ evs\<rparr>)"
          let ?t = "s\<lparr>trace := trace s @ ?cb # NewPage # Pages # evs\<rparr>"
          have step2: "\<forall>k. openSession a m sc k s = ?rest k ?t"
            using step r by simp
          show ?thesis
          proof (cases "authenticate_ans sc")
            case (Inl f)
            then have "\<forall>k. openSession a m sc k s =
                Raised f (s\<lparr>trace := trace s @ ?cb # (NewPage # Pages # evs @ [?au])\<rparr>)"
              using step2 by (simp add: call_def emit_def)
            from raisedI [OF this] o have ?R by simp
            then show ?thesis by blast
          next
            case au: (Inr u3)
            show ?thesis
            proof (cases "login_ans sc")
              case (Inl f)
              then have "\<forall>k. openSession a m sc k s =
                  Raised f (s\<lparr>trace := trace s @ ?cb # (NewPage # Pages # evs @ [?au, ?lg])\<rparr>)"
                using step2 au by (simp add: call_def emit_def)
              from raisedI [OF this] o have ?R by simp
            then show ?thesis by blast
            next
              case (Inr u4)
              then have "\<forall>k. openSession a m sc k s =
                  k (s\<lparr>trace := trace s @ ?cb # (NewPage # Pages # evs @ [?au, ?lg])\<rparr>)"
                using step2 au by (simp add: call_def emit_def)
              moreover have "\<forall>e\<in>set (NewPage # Pages # evs @ [?au, ?lg]). isOpening e"
                using o by simp
              ultimately show ?thesis by blast
            qed
          qed
        qed
      qed
    qed
  qed
qed

lemma openSession_Returned:
  assumes "openSession a m sc Returned s = Returned s1"
  shows "openSession a m sc k s = k s1"
    and "\<exists>evs. (\<forall>e\<in>set evs. isOpening e) \<and>
           s1 = s\<lparr>trace := trace s @ CreateBrowser (email a) (proxy a) m # evs\<rparr>"
  using openSession_shape [of a m sc s] assms by auto

lemmas body_defs = desktopBody_def mobileBody_def call_def whenEnabled_def emit_def Let_def

lemma desktopBody_extends:
  "desktopBody cfg sc s = r \<Longrightarrow> finalState r =
     s\<lparr>collectedPoints := collectedPoints (finalState r),
       trace := trace s @ newEvents s r\<rparr>"
  by (auto simp: body_defs newEvents_def split: sum.splits if_splits)

lemma mobileBody_extends:
  "mobileBody cfg sc s = r \<Longrightarrow> finalState r =
     s\<lparr>collectedPoints := collectedPoints (finalState r),
       trace := trace s @ newEvents s r\<rparr>"
  by (auto simp: body_defs newEvents_def split: sum.splits if_splits)

lemma desktopBody_events:
  "desktopBody cfg sc s = r \<Longrightarrow> e \<in> set (newEvents s r) \<Longrightarrow>
     isSessionCall e \<and> \<not> isMobileStart e \<and> \<not> isOpening e"
  by (auto simp: body_defs newEvents_def split: sum.splits if_splits)

lemma mobileBody_events:
  "mobileBody cfg sc s = r \<Longrightarrow> e \<in> set (newEvents s r) \<Longrightarrow>
     isSessionCall e \<and> \<not> isMobileStart e \<and> \<not> isOpening e"
  by (auto simp: body_defs newEvents_def split: sum.splits if_splits)

lemma desktopBody_close:
  "desktopBody cfg sc s = r \<Longrightarrow>
     (case r of
        Returned s' \<Rightarrow> count_list (newEvents s r) BrowserClose = 1 \<and> last (newEvents s r) = BrowserClose
      | Raised f s' \<Rightarrow>
          (if last (newEvents s r) = BrowserClose
           then browserClose_ans sc = Inl f \<and> count_list (newEvents s r) BrowserClose = 1
           else count_list (newEvents s r) BrowserClose = 0) \<and> newEvents s r \<noteq> []
      | _ \<Rightarrow> False)"
  by (auto simp: body_defs newEvents_def split: sum.splits if_splits)

lemma mobileBody_close:
  "mobileBody cfg sc s = r \<Longrightarrow>
     (case r of
        Returned s' \<Rightarrow> count_list (newEvents s r) BrowserClose = 1 \<and> last (newEvents s r) = BrowserClose
      | Raised f s' \<Rightarrow>
          (if last (newEvents s r) = BrowserClose
           then browserClose_ans sc = Inl f \<and> count_list (newEvents s r) BrowserClose = 1
           else count_list (newEvents s r) BrowserClose = 0) \<and> newEvents s r \<noteq> []
      | _ \<Rightarrow> False)"
  by (auto simp: body_defs newEvents_def split: sum.splits if_splits)

lemma desktopBody_gating:
  assumes "desktopBody cfg sc s = r"
    and "goHome_ans sc = Inr True"
    and "getDashboardData_ans sc = Inr data"
    and "getEarnablePoints_ans sc = Inr p"
  shows "(\<not> runOnZeroPoints cfg \<and> p = 0 \<longrightarrow>
            newEvents s r = [GoHome, GetDashboardData, GetEarnablePoints, BrowserClose])
       \<and> (runOnZeroPoints cfg \<or> p \<noteq> 0 \<longrightarrow>
            prefix (newEvents s r)
              ([GoHome, GetDashboardData, GetEarnablePoints] @ desktopPlan cfg @ [BrowserClose])
          \<and> ((doDailySet (workers cfg) \<longrightarrow> doDailySet_ans sc = Inr ())
             \<and> (doMorePromotions (workers cfg) \<longrightarrow> doMorePromotions_ans sc = Inr ())
             \<and> (doPunchCards (workers cfg) \<longrightarrow> doPunchCard_ans sc = Inr ())
             \<and> (doDesktopSearch (workers cfg) \<longrightarrow> doSearch_ans sc = Inr ())
             \<longrightarrow> newEvents s r =
                   [GoHome, GetDashboardData, GetEarnablePoints] @ desktopPlan cfg @ [BrowserClose]))"
  using assms
  by (auto simp: body_defs newEvents_def desktopPlan_def split: sum.splits if_splits)


lemma newEvents_lift:
  "finalState r = s'\<lparr>collectedPoints := p, trace := trace s' @ bevs\<rparr> \<Longrightarrow>
   s' = s\<lparr>trace := trace s @ oevs\<rparr> \<Longrightarrow> newEvents s r = oevs @ bevs"
  by (simp add: newEvents_def)

lemma phase_cases:
  assumes ext: "\<And>s r. body s = r \<Longrightarrow>
      finalState r = s\<lparr>collectedPoints := collectedPoints (finalState r),
                        trace := trace s @ newEvents s r\<rparr>"
  obtains evs s' where "\<forall>e\<in>set evs. isOpening e"
    and "s' = s\<lparr>trace := trace s @ CreateBrowser (email a) (proxy a) m # evs\<rparr>"
    and "openSession a m sc body s = NoReturn s' \<or>
         (\<exists>f. openSession a m sc body s = Raised f s') \<or>
         (openSession a m sc body s = body s' \<and>
          openSession a m sc Returned s = Returned s' \<and>
          newEvents s (body s') =
            CreateBrowser (email a) (proxy a) m # evs @ newEvents s' (body s'))"
proof -
  from openSession_shape [of a m sc s]
  consider (hang) evs where "\<forall>e\<in>set evs. isOpening e"
      "\<forall>k. openSession a m sc k s =
         NoReturn (s\<lparr>trace := trace s @ CreateBrowser (email a) (proxy a) m # evs\<rparr>)"
    | (raised) evs f where "\<forall>e\<in>set evs. isOpening e"
      "\<forall>k. openSession a m sc k s =
         Raised f (s\<lparr>trace := trace s @ CreateBrowser (email a) (proxy a) m # evs\<rparr>)"
    | (opened) evs where "\<forall>e\<in>set evs. isOpening e"
      "\<forall>k. openSession a m sc k s =
         k (s\<lparr>trace := trace s @ CreateBrowser (email a) (proxy a) m # evs\<rparr>)"
    by blast
  then show thesis
  proof cases
    case hang
    then show ?thesis using that by blast
  next
    case raised
    then show ?thesis using that by blast
  next
    case opened
    let ?s' = "s\<lparr>trace := trace s @ CreateBrowser (email a) (proxy a) m # evs\<rparr>"
    have "newEvents s (body ?s') =
        (CreateBrowser (email a) (proxy a) m # evs) @ newEvents ?s' (body ?s')"
      by (rule newEvents_lift [OF ext [OF refl] refl])
    then show ?thesis using that [of evs ?s'] opened by simp
  qed
qed

lemma last_opening:
  "\<forall>e\<in>set evs. isOpening e \<Longrightarrow> last (CreateBrowser x y m # evs) \<noteq> BrowserClose"
  by (cases evs rule: rev_cases) auto

lemma count_opening:
  "\<forall>e\<in>set evs. isOpening e \<Longrightarrow> count_list (CreateBrowser x y m # evs) BrowserClose = 0"
  by (auto simp: count_list_0_iff)

lemma phase_close:
  assumes ext: "\<And>s r. body s = r \<Longrightarrow>
      finalState r = s\<lparr>collectedPoints := collectedPoints (finalState r),
                        trace := trace s @ newEvents s r\<rparr>"
    and close: "\<And>s r. body s = r \<Longrightarrow>
     (case r of
        Returned s' \<Rightarrow> count_list (newEvents s r) BrowserClose = 1 \<and> last (newEvents s r) = BrowserClose
      | Raised f s' \<Rightarrow>
          (if last (newEvents s r) = BrowserClose
           then browserClose_ans sc = Inl f \<and> count_list (newEvents s r) BrowserClose = 1
           else count_list (newEvents s r) BrowserClose = 0) \<and> newEvents s r \<noteq> []
      | _ \<Rightarrow> False)"
    and r: "r = openSession a m sc body s"
  shows "(\<forall>s'. r = Returned s' \<longrightarrow>
            count_list (newEvents s r) BrowserClose = 1 \<and> last (newEvents s r) = BrowserClose)
       \<and> (\<forall>f s'. r = Raised f s' \<longrightarrow>
            (last (newEvents s r) = BrowserClose \<longrightarrow>
               browserClose_ans sc = Inl f \<and> count_list (newEvents s r) BrowserClose = 1)
          \<and> (last (newEvents s r) \<noteq> BrowserClose \<longrightarrow>
               count_list (newEvents s r) BrowserClose = 0))"
proof -
  obtain evs s1 where o: "\<forall>e\<in>set evs. isOpening e"
    and s1: "s1 = s\<lparr>trace := trace s @ CreateBrowser (email a) (proxy a) m # evs\<rparr>"
    and c: "openSession a m sc body s = NoReturn s1 \<or>
         (\<exists>f. openSession a m sc body s = Raised f s1) \<or>
         (openSession a m sc body s = body s1 \<and>
          openSession a m sc Returned s = Returned s1 \<and>
          newEvents s (body s1) =
            CreateBrowser (email a) (proxy a) m # evs @ newEvents s1 (body s1))"
    using phase_cases [where body = body and s = s and a = a and m = m and sc = sc, OF ext]
    by metis
  from c consider (hang) "r = NoReturn s1" | (raised) f where "r = Raised f s1"
    | (opened) "r = body s1"
      "newEvents s r = CreateBrowser (email a) (proxy a) m # evs @ newEvents s1 r"
    using r by auto
  then show ?thesis
  proof cases
    case hang
    then show ?thesis by simp
  next
    case raised
    then have "newEvents s r = CreateBrowser (email a) (proxy a) m # evs"
      by (simp add: newEvents_def s1)
    then show ?thesis using last_opening [OF o] count_opening [OF o] raised by simp
  next
    case opened
    let ?b = "newEvents s1 r"
    have cnt: "count_list (newEvents s r) BrowserClose = count_list ?b BrowserClose"
      using opened(2) o by (auto simp: count_list_0_iff)
    have lst: "?b \<noteq> [] \<Longrightarrow> last (newEvents s r) = last ?b"
      using opened(2) by simp
    have ne: "count_list ?b BrowserClose = 1 \<Longrightarrow> ?b \<noteq> []"
      by auto
    from close [of s1 r] opened(1) show ?thesis
      using cnt lst ne by (cases r) (auto split: if_splits)
  qed
qed

lemmas demo_defs = demo_account_def demo_config_def demo_script_def demo_opened_def newBot_def
  demo_visit_def

lemma close_discipline:
  assumes "r = Desktop cfg account sc s \<or> r = Mobile cfg account sc s"
  shows "(\<forall>s'. r = Returned s' \<longrightarrow>
            count_list (newEvents s r) BrowserClose = 1 \<and> last (newEvents s r) = BrowserClose)
       \<and> (\<forall>f s'. r = Raised f s' \<longrightarrow>
            (last (newEvents s r) = BrowserClose \<longrightarrow>
               browserClose_ans sc = Inl f \<and> count_list (newEvents s r) BrowserClose = 1)
          \<and> (last (newEvents s r) \<noteq> BrowserClose \<longrightarrow>
               count_list (newEvents s r) BrowserClose = 0))"
  using assms
proof
  assume "r = Desktop cfg account sc s"
  then have r: "r = openSession account False sc (desktopBody cfg sc) s"
    by (simp add: Desktop_def)
  show ?thesis
    using desktopBody_extends [of cfg sc] desktopBody_close [of cfg sc] r
    by (rule phase_close [where body = "desktopBody cfg sc"])
next
  assume "r = Mobile cfg account sc s"
  then have r: "r = openSession account True sc (mobileBody cfg sc) s"
    by (simp add: Mobile_def)
  show ?thesis
    using mobileBody_extends [of cfg sc] mobileBody_close [of cfg sc] r
    by (rule phase_close [where body = "mobileBody cfg sc"])
qed

lemma prunePages_rounds:
  "\<forall>c\<in>set (butlast (n # counts)). 2 < c \<Longrightarrow>
     prunePages n (pruneRounds counts @ rest) k s =
       prunePages (last (n # counts)) rest k
         (s\<lparr>trace := trace s @ concat (replicate (length counts) [PageClose, Pages])\<rparr>)"
proof (induction counts arbitrary: n s)
  case Nil
  show ?case by (simp add: pruneRounds_def)
next
  case (Cons c counts)
  then have n: "2 < n" and rest: "\<forall>c'\<in>set (butlast (c # counts)). 2 < c'"
    by simp_all
  have "prunePages n (pruneRounds (c # counts) @ rest) k s =
      prunePages c (pruneRounds counts @ rest) k (s\<lparr>trace := trace s @ [PageClose, Pages]\<rparr>)"
    using n by (simp add: pruneRounds_def emit_def)
  also have "\<dots> = prunePages (last (c # counts)) rest k
         (s\<lparr>trace := trace s @ [PageClose, Pages] @
            concat (replicate (length counts) [PageClose, Pages])\<rparr>)"
    using Cons.IH [OF rest, of "s\<lparr>trace := trace s @ [PageClose, Pages]\<rparr>"] by simp
  finally show ?case by simp
qed

lemma rounds_opening: "e \<in> set (concat (replicate j [PageClose, Pages])) \<Longrightarrow> isOpening e"
  by (induction j) auto

lemma unclosed_opening:
  "\<forall>e\<in>set evs. isOpening e \<Longrightarrow>
     unclosed f s (Raised f (s\<lparr>trace := trace s @ CreateBrowser x y m # evs\<rparr>))"
  by (auto simp: unclosed_def newEvents_def count_list_0_iff)

text \<open>Faults while the session is being opened, from the answers.\<close>

lemma opening_faults:
  "createBrowser_ans sc = Inl f \<Longrightarrow> unclosed f s (openSession account m sc k s)"
  "createBrowser_ans sc = Inr () \<Longrightarrow> newPage_ans sc = Inl f \<Longrightarrow>
     unclosed f s (openSession account m sc k s)"
  "createBrowser_ans sc = Inr () \<Longrightarrow> newPage_ans sc = Inr () \<Longrightarrow> pages_ans sc = Inl f \<Longrightarrow>
     unclosed f s (openSession account m sc k s)"
  by (simp_all add: openSession_def call_def emit_def unclosed_def newEvents_def)

lemma pruning_faults:
  assumes "createBrowser_ans sc = Inr ()" "newPage_ans sc = Inr ()" "pages_ans sc = Inr n"
    and p: "prune_ans sc = pruneRounds counts @ (cl, pg) # rest"
    and c: "\<forall>c\<in>set (n # counts). 2 < c"
    and f: "cl = Inl f \<or> cl = Inr () \<and> pg = Inl f"
  shows "unclosed f s (openSession account m sc k s)"
proof -
  let ?cb = "CreateBrowser (email account) (proxy account) m"
  let ?evs = "[NewPage, Pages] @ concat (replicate (length counts) [PageClose, Pages])"
  let ?t = "s\<lparr>trace := trace s @ ?cb # ?evs\<rparr>"
  have b: "\<forall>c\<in>set (butlast (n # counts)). 2 < c"
    using c by (meson in_set_butlastD)
  have l: "2 < last (n # counts)"
    using c by (metis last_in_set list.distinct(1))
  have o: "\<forall>e\<in>set ?evs. isOpening e"
    using rounds_opening by auto
  let ?K = "call (Authenticate (proxy_username (proxy account)) (proxy_password (proxy account)))
           (authenticate_ans sc) (\<lambda>_. call (Login (email account) (password account)) (login_ans sc) (\<lambda>_. k))"
  let ?u = "s\<lparr>trace := trace s @ [?cb, NewPage, Pages]\<rparr>"
  have "openSession account m sc k s = prunePages n (pruneRounds counts @ (cl, pg) # rest) ?K ?u"
    using assms(1-3) by (simp add: openSession_def call_def emit_def p)
  also have "\<dots> = prunePages (last (n # counts)) ((cl, pg) # rest) ?K
      (?u\<lparr>trace := trace ?u @ concat (replicate (length counts) [PageClose, Pages])\<rparr>)"
    by (rule prunePages_rounds [OF b])
  also have "\<dots> = prunePages (last (n # counts)) ((cl, pg) # rest) ?K ?t"
    by simp
  finally have "openSession account m sc k s = Raised f (s\<lparr>trace := trace s @ ?cb # (?evs @ [PageClose])\<rparr>)
      \<or> openSession account m sc k s = Raised f (s\<lparr>trace := trace s @ ?cb # (?evs @ [PageClose, Pages])\<rparr>)"
    using l f by (auto simp: emit_def)
  moreover have "\<forall>e\<in>set (?evs @ [PageClose]). isOpening e" "\<forall>e\<in>set (?evs @ [PageClose, Pages]). isOpening e"
    using o by auto
  ultimately show ?thesis
    using unclosed_opening by metis
qed

lemma pruned_then:
  assumes "createBrowser_ans sc = Inr ()" "newPage_ans sc = Inr ()" "pages_ans sc = Inr n"
    and p: "prune_ans sc = pruneRounds counts @ rest"
    and b: "\<forall>c\<in>set (butlast (n # counts)). 2 < c"
    and l: "last (n # counts) \<le> 2"
  shows "(authenticate_ans sc = Inl f \<or> authenticate_ans sc = Inr () \<and> login_ans sc = Inl f \<longrightarrow>
           unclosed f s (openSession account m sc k s))
       \<and> (authenticate_ans sc = Inr () \<and> login_ans sc = Inr () \<longrightarrow>
           (\<exists>s1. openSession account m sc Returned s = Returned s1))"
proof -
  let ?cb = "CreateBrowser (email account) (proxy account) m"
  let ?au = "Authenticate (proxy_username (proxy account)) (proxy_password (proxy account))"
  let ?lg = "Login (email account) (password account)"
  let ?evs = "[NewPage, Pages] @ concat (replicate (length counts) [PageClose, Pages])"
  let ?t = "s\<lparr>trace := trace s @ ?cb # ?evs\<rparr>"
  have o: "\<forall>e\<in>set ?evs. isOpening e"
    using rounds_opening by auto
  let ?u = "s\<lparr>trace := trace s @ [?cb, NewPage, Pages]\<rparr>"
  have fin: "prunePages (last (n # counts)) rest k' t = k' t" for k' t
    using l by (cases rest) auto
  have step: "openSession account m sc k' s =
      call ?au (authenticate_ans sc) (\<lambda>_. call ?lg (login_ans sc) (\<lambda>_. k')) ?t" for k'
  proof -
    let ?K = "call ?au (authenticate_ans sc) (\<lambda>_. call ?lg (login_ans sc) (\<lambda>_. k'))"
    have "openSession account m sc k' s = prunePages n (pruneRounds counts @ rest) ?K ?u"
      using assms(1-3) by (simp add: openSession_def call_def emit_def p)
    also have "\<dots> = prunePages (last (n # counts)) rest ?K
        (?u\<lparr>trace := trace ?u @ concat (replicate (length counts) [PageClose, Pages])\<rparr>)"
      by (rule prunePages_rounds [OF b])
    also have "\<dots> = ?K (?u\<lparr>trace := trace ?u @ concat (replicate (length counts) [PageClose, Pages])\<rparr>)"
      by (rule fin)
    also have "\<dots> = ?K ?t" by simp
    finally show ?thesis .
  qed
  have 1: "unclosed f s (openSession account m sc k s)"
    if "authenticate_ans sc = Inl f \<or> authenticate_ans sc = Inr () \<and> login_ans sc = Inl f"
  proof -
    from that have "openSession account m sc k s = Raised f (s\<lparr>trace := trace s @ ?cb # (?evs @ [?au])\<rparr>)
      \<or> openSession account m sc k s = Raised f (s\<lparr>trace := trace s @ ?cb # (?evs @ [?au, ?lg])\<rparr>)"
      by (auto simp: step call_def emit_def)
    moreover have "\<forall>e\<in>set (?evs @ [?au]). isOpening e" "\<forall>e\<in>set (?evs @ [?au, ?lg]). isOpening e"
      using o by auto
    ultimately show ?thesis using unclosed_opening by metis
  qed
  have 2: "\<exists>s1. openSession account m sc Returned s = Returned s1"
    if "authenticate_ans sc = Inr () \<and> login_ans sc = Inr ()"
    using that by (simp add: step call_def)
  from 1 2 show ?thesis by blast
qed


lemma desktopBody_faults:
  assumes "desktopBody cfg sc s = r"
  shows "(goHome_ans sc = Inl f \<longrightarrow> unclosed f s r)
    \<and> (goHome_ans sc = Inr False \<longrightarrow> unclosed DashboardUnreachable s r)
    \<and> (goHome_ans sc = Inr True \<and> getDashboardData_ans sc = Inl f \<longrightarrow> unclosed f s r)
    \<and> (goHome_ans sc = Inr True \<and> getDashboardData_ans sc = Inr d
         \<and> getEarnablePoints_ans sc = Inl f \<longrightarrow> unclosed f s r)
    \<and> (goHome_ans sc = Inr True \<and> getDashboardData_ans sc = Inr d
         \<and> getEarnablePoints_ans sc = Inr p \<and> (runOnZeroPoints cfg \<or> p \<noteq> 0)
         \<and> firstFault (desktopExecutors cfg sc) = Some f \<longrightarrow> unclosed f s r)"
  using assms
  by (auto simp: body_defs unclosed_def newEvents_def desktopExecutors_def
      split: sum.splits if_splits)

lemma mobileBody_faults:
  assumes "mobileBody cfg sc s = r"
  shows "(goHome_ans sc = Inl f \<longrightarrow> unclosed f s r)
    \<and> (goHome_ans sc = Inr b \<and> getDashboardData_ans sc = Inl f \<longrightarrow> unclosed f s r)
    \<and> (goHome_ans sc = Inr b \<and> getDashboardData_ans sc = Inr d \<and> mobileSearch d = Some c
         \<and> doMobileSearch (workers cfg) \<and> doSearch_ans sc = Inl f \<longrightarrow> unclosed f s r)
    \<and> (goHome_ans sc = Inr b \<and> getDashboardData_ans sc = Inr d \<and> mobileSearch d = Some c
         \<and> (doMobileSearch (workers cfg) \<longrightarrow> doSearch_ans sc = Inr ())
         \<and> getEarnablePoints_ans sc = Inl f \<longrightarrow> unclosed f s r)"
  using assms
  by (auto simp: body_defs unclosed_def newEvents_def split: sum.splits if_splits)

lemma unclosed_lift:
  assumes op: "openSession account m sc Returned s = Returned s1"
    and ext: "finalState r = s1\<lparr>collectedPoints := collectedPoints (finalState r),
                                 trace := trace s1 @ newEvents s1 r\<rparr>"
    and u: "unclosed f s1 r"
  shows "unclosed f s r"
proof -
  from openSession_Returned(2) [OF op] obtain evs where o: "\<forall>e\<in>set evs. isOpening e"
    and s1: "s1 = s\<lparr>trace := trace s @ CreateBrowser (email account) (proxy account) m # evs\<rparr>"
    by blast
  have "newEvents s r = (CreateBrowser (email account) (proxy account) m # evs) @ newEvents s1 r"
    by (rule newEvents_lift [OF ext s1])
  then have "count_list (newEvents s r) BrowserClose = count_list (newEvents s1 r) BrowserClose"
    using o by (auto simp: count_list_0_iff)
  then show ?thesis using u by (auto simp: unclosed_def split: result.splits)
qed

text \<open>
  C1 (as amended). In a run of the desktop or of the mobile phase that returns,
  \<open>browser.close\<close> is called exactly once, as the last call. In a run that throws,
  either the throwing call is \<open>browser.close\<close> itself, called once, or
  \<open>browser.close\<close> is not called at all. And whenever a collaborator called before
  \<open>browser.close\<close> answers with a fault, the phase ends by throwing that fault without
  having called \<open>browser.close\<close>: \<open>createBrowser\<close>, \<open>newPage\<close>, the first
  \<open>browser.pages\<close>, either call of a round of the pruning loop, \<open>authenticate\<close> and
  \<open>login\<close> once the loop is over, and, once the session is open, \<open>goHome\<close> (also when
  the desktop phase is answered false), \<open>getDashboardData\<close>, \<open>getEarnablePoints\<close>, the
  first enabled desktop executor that throws, and the mobile search.
\<close>

theorem close_once_unless_earlier_fault:
  assumes ph: "phase = Desktop cfg account sc \<and> \<not> m \<or> phase = Mobile cfg account sc \<and> m"
  shows
    "(\<forall>s'. phase s = Returned s' \<longrightarrow>
        count_list (newEvents s (phase s)) BrowserClose = 1
        \<and> last (newEvents s (phase s)) = BrowserClose)
   \<and> (\<forall>g s'. phase s = Raised g s' \<longrightarrow>
        (last (newEvents s (phase s)) = BrowserClose \<longrightarrow>
           browserClose_ans sc = Inl g \<and> count_list (newEvents s (phase s)) BrowserClose = 1)
      \<and> (last (newEvents s (phase s)) \<noteq> BrowserClose \<longrightarrow>
           count_list (newEvents s (phase s)) BrowserClose = 0))
   \<and> (createBrowser_ans sc = Inl f \<longrightarrow> unclosed f s (phase s))
   \<and> (createBrowser_ans sc = Inr () \<and> newPage_ans sc = Inl f \<longrightarrow> unclosed f s (phase s))
   \<and> (createBrowser_ans sc = Inr () \<and> newPage_ans sc = Inr () \<and> pages_ans sc = Inl f \<longrightarrow>
        unclosed f s (phase s))
   \<and> (createBrowser_ans sc = Inr () \<and> newPage_ans sc = Inr () \<and> pages_ans sc = Inr n
        \<and> prune_ans sc = pruneRounds counts @ (cl, pg) # rest
        \<and> (\<forall>c\<in>set (n # counts). 2 < c)
        \<and> (cl = Inl f \<or> cl = Inr () \<and> pg = Inl f) \<longrightarrow>
        unclosed f s (phase s))
   \<and> (createBrowser_ans sc = Inr () \<and> newPage_ans sc = Inr () \<and> pages_ans sc = Inr n
        \<and> prune_ans sc = pruneRounds counts @ rest
        \<and> (\<forall>c\<in>set (butlast (n # counts)). 2 < c) \<and> last (n # counts) \<le> 2 \<longrightarrow>
        (authenticate_ans sc = Inl f \<or> authenticate_ans sc = Inr () \<and> login_ans sc = Inl f \<longrightarrow>
           unclosed f s (phase s))
      \<and> (authenticate_ans sc = Inr () \<and> login_ans sc = Inr () \<longrightarrow>
           (\<exists>s1. openSession account m sc Returned s = Returned s1)))
   \<and> (openSession account m sc Returned s = Returned s1 \<and> \<not> m \<longrightarrow>
        (goHome_ans sc = Inl f \<longrightarrow> unclosed f s (phase s))
      \<and> (goHome_ans sc = Inr False \<longrightarrow> unclosed DashboardUnreachable s (phase s))
      \<and> (goHome_ans sc = Inr True \<and> getDashboardData_ans sc = Inl f \<longrightarrow> unclosed f s (phase s))
      \<and> (goHome_ans sc = Inr True \<and> getDashboardData_ans sc = Inr d
           \<and> getEarnablePoints_ans sc = Inl f \<longrightarrow> unclosed f s (phase s))
      \<and> (goHome_ans sc = Inr True \<and> getDashboardData_ans sc = Inr d
           \<and> getEarnablePoints_ans sc = Inr p \<and> (runOnZeroPoints cfg \<or> p \<noteq> 0)
           \<and> firstFault (desktopExecutors cfg sc) = Some f \<longrightarrow> unclosed f s (phase s)))
   \<and> (openSession account m sc Returned s = Returned s1 \<and> m \<longrightarrow>
        (goHome_ans sc = Inl f \<longrightarrow> unclosed f s (phase s))
      \<and> (goHome_ans sc = Inr b \<and> getDashboardData_ans sc = Inl f \<longrightarrow> unclosed f s (phase s))
      \<and> (goHome_ans sc = Inr b \<and> getDashboardData_ans sc = Inr d \<and> mobileSearch d = Some c
           \<and> doMobileSearch (workers cfg) \<and> doSearch_ans sc = Inl f \<longrightarrow> unclosed f s (phase s))
      \<and> (goHome_ans sc = Inr b \<and> getDashboardData_ans sc = Inr d \<and> mobileSearch d = Some c
           \<and> (doMobileSearch (workers cfg) \<longrightarrow> doSearch_ans sc = Inr ())
           \<and> getEarnablePoints_ans sc = Inl f \<longrightarrow> unclosed f s (phase s)))"
    (is "?ret \<and> ?raised \<and> ?cb \<and> ?np \<and> ?pg \<and> ?loop \<and> ?pruned \<and> ?desk \<and> ?mob")
proof -
  from ph obtain body where phase: "phase = openSession account m sc body"
    and body: "\<not> m \<and> body = desktopBody cfg sc \<or> m \<and> body = mobileBody cfg sc"
    by (auto simp: Desktop_def Mobile_def)
  have "phase s = Desktop cfg account sc s \<or> phase s = Mobile cfg account sc s"
    using ph by auto
  note cd = close_discipline [OF this]
  have ret: ?ret by (rule cd [THEN conjunct1])
  have raised: ?raised by (rule cd [THEN conjunct2])
  have cb: ?cb and np: ?np and pg: ?pg
    unfolding phase using opening_faults [where sc = sc and f = f and s = s and account = account and m = m and k = body] by blast+
  have loop: ?loop
    unfolding phase using pruning_faults [where sc = sc and n = n and counts = counts and cl = cl and pg = pg
        and rest = rest and f = f and s = s and account = account and m = m and k = body] by blast
  have pruned: ?pruned
    unfolding phase using pruned_then [where sc = sc and n = n and counts = counts and rest = rest and f = f
        and s = s and account = account and m = m and k = body] by blast
  have desk: ?desk
  proof (intro impI)
    assume h: "openSession account m sc Returned s = Returned s1 \<and> \<not> m"
    then have op: "openSession account m sc Returned s = Returned s1" and b: "body = desktopBody cfg sc"
      using body by auto
    have run: "phase s = desktopBody cfg sc s1"
      unfolding phase b by (rule openSession_Returned(1) [OF op])
    have lift: "unclosed g s1 (desktopBody cfg sc s1) \<Longrightarrow> unclosed g s (phase s)" for g
      unfolding run by (rule unclosed_lift [OF op desktopBody_extends [OF refl]])
    from desktopBody_faults [OF refl, where cfg = cfg and sc = sc and f = f and s = s1 and d = d and p = p] lift
    show "(goHome_ans sc = Inl f \<longrightarrow> unclosed f s (phase s))
      \<and> (goHome_ans sc = Inr False \<longrightarrow> unclosed DashboardUnreachable s (phase s))
      \<and> (goHome_ans sc = Inr True \<and> getDashboardData_ans sc = Inl f \<longrightarrow> unclosed f s (phase s))
      \<and> (goHome_ans sc = Inr True \<and> getDashboardData_ans sc = Inr d
           \<and> getEarnablePoints_ans sc = Inl f \<longrightarrow> unclosed f s (phase s))
      \<and> (goHome_ans sc = Inr True \<and> getDashboardData_ans sc = Inr d
           \<and> getEarnablePoints_ans sc = Inr p \<and> (runOnZeroPoints cfg \<or> p \<noteq> 0)
           \<and> firstFault (desktopExecutors cfg sc) = Some f \<longrightarrow> unclosed f s (phase s))"
      by blast
  qed
  have mob: ?mob
  proof (intro impI)
    assume h: "openSession account m sc Returned s = Returned s1 \<and> m"
    then have op: "openSession account m sc Returned s = Returned s1" and b: "body = mobileBody cfg sc"
      using body by auto
    have run: "phase s = mobileBody cfg sc s1"
      unfolding phase b by (rule openSession_Returned(1) [OF op])
    have lift: "unclosed g s1 (mobileBody cfg sc s1) \<Longrightarrow> unclosed g s (phase s)" for g
      unfolding run by (rule unclosed_lift [OF op mobileBody_extends [OF refl]])
    from mobileBody_faults [OF refl, where cfg = cfg and sc = sc and f = f and s = s1 and b = b and d = d
        and c = c] lift
    show "(goHome_ans sc = Inl f \<longrightarrow> unclosed f s (phase s))
      \<and> (goHome_ans sc = Inr b \<and> getDashboardData_ans sc = Inl f \<longrightarrow> unclosed f s (phase s))
      \<and> (goHome_ans sc = Inr b \<and> getDashboardData_ans sc = Inr d \<and> mobileSearch d = Some c
           \<and> doMobileSearch (workers cfg) \<and> doSearch_ans sc = Inl f \<longrightarrow> unclosed f s (phase s))
      \<and> (goHome_ans sc = Inr b \<and> getDashboardData_ans sc = Inr d \<and> mobileSearch d = Some c
           \<and> (doMobileSearch (workers cfg) \<longrightarrow> doSearch_ans sc = Inr ())
           \<and> getEarnablePoints_ans sc = Inl f \<longrightarrow> unclosed f s (phase s))"
      by blast
  qed
  show ?thesis
    by (intro conjI ret raised cb np pg loop pruned desk mob)
qed


theorem close_once_unless_earlier_fault_witness:
  "count_list (newEvents (newBot demo_config)
      (Desktop demo_config demo_account demo_script (newBot demo_config))) BrowserClose = 1
   \<and> firstFault (desktopExecutors demo_config
        (demo_script\<lparr>doPunchCard_ans := Inl (Thrown ''x'')\<rparr>)) = Some (Thrown ''x'')
   \<and> unclosed (Thrown ''x'') (newBot demo_config)
        (Desktop demo_config demo_account (demo_script\<lparr>doPunchCard_ans := Inl (Thrown ''x'')\<rparr>)
           (newBot demo_config))
   \<and> unclosed (Thrown ''LoginFailed'') (newBot demo_config)
        (Mobile demo_config demo_account (demo_script\<lparr>login_ans := Inl (Thrown ''LoginFailed'')\<rparr>)
           (newBot demo_config))
   \<and> unclosed (Thrown ''y'') (newBot demo_config)
        (Mobile demo_config demo_account (demo_script\<lparr>getEarnablePoints_ans := Inl (Thrown ''y'')\<rparr>)
           (newBot demo_config))"
proof -
  let ?s = "newBot demo_config"
  let ?data = "\<lparr>availablePoints = 100, mobileSearch = Some ()\<rparr>"
  let ?scx = "demo_script\<lparr>doPunchCard_ans := Inl (Thrown ''x'')\<rparr>"
  let ?scl = "demo_script\<lparr>login_ans := Inl (Thrown ''LoginFailed'')\<rparr>"
  let ?scy = "demo_script\<lparr>getEarnablePoints_ans := Inl (Thrown ''y'')\<rparr>"
  have d: "Desktop demo_config demo_account demo_script ?s =
      Returned ((demo_opened False)\<lparr>collectedPoints := 30,
        trace := trace (demo_opened False) @
          [GoHome, GetDashboardData, GetEarnablePoints, DoDailySet, DoPunchCard, DoSearch False,
           BrowserClose]\<rparr>)"
    by (simp add: Desktop_def openSession_def body_defs demo_defs)
  have phd: "Desktop demo_config demo_account sc = Desktop demo_config demo_account sc \<and> \<not> False
      \<or> Desktop demo_config demo_account sc = Mobile demo_config demo_account sc \<and> False"
    for sc :: "unit script"
    by simp
  have phm: "Mobile demo_config demo_account sc = Desktop demo_config demo_account sc \<and> \<not> True
      \<or> Mobile demo_config demo_account sc = Mobile demo_config demo_account sc \<and> True"
    for sc :: "unit script"
    by simp
  from close_once_unless_earlier_fault [OF phd, where s = ?s, THEN conjunct1] d
  have 1: "count_list (newEvents ?s (Desktop demo_config demo_account demo_script ?s)) BrowserClose = 1"
    by simp
  have opx: "openSession demo_account False ?scx Returned ?s = Returned (demo_opened False)"
    by (simp add: openSession_def call_def emit_def demo_defs)
  have ansx: "goHome_ans ?scx = Inr True" "getDashboardData_ans ?scx = Inr ?data"
    "getEarnablePoints_ans ?scx = Inr 30"
    by (simp_all add: demo_script_def)
  have ffx: "firstFault (desktopExecutors demo_config ?scx) = Some (Thrown ''x'')"
    by (simp add: desktopExecutors_def demo_config_def demo_script_def)
  from close_once_unless_earlier_fault [OF phd, where s = ?s and sc = ?scx
      and ?s1.0 = "demo_opened False" and d = ?data and p = 30 and f = "Thrown ''x''",
      THEN conjunct2, THEN conjunct2, THEN conjunct2, THEN conjunct2, THEN conjunct2,
      THEN conjunct2, THEN conjunct2, THEN conjunct1]
    opx ansx ffx
  have 2: "unclosed (Thrown ''x'') ?s (Desktop demo_config demo_account ?scx ?s)"
    by simp
  have ansl: "createBrowser_ans ?scl = Inr ()" "newPage_ans ?scl = Inr ()" "pages_ans ?scl = Inr 3"
    "prune_ans ?scl = pruneRounds [2] @ []" "authenticate_ans ?scl = Inr ()"
    "login_ans ?scl = Inl (Thrown ''LoginFailed'')"
    by (simp_all add: demo_script_def pruneRounds_def)
  from close_once_unless_earlier_fault [OF phm, where s = ?s and sc = ?scl
      and n = 3 and counts = "[2]" and rest = "[]" and f = "Thrown ''LoginFailed''",
      THEN conjunct2, THEN conjunct2, THEN conjunct2, THEN conjunct2, THEN conjunct2,
      THEN conjunct2, THEN conjunct1]
    ansl
  have 3: "unclosed (Thrown ''LoginFailed'') ?s (Mobile demo_config demo_account ?scl ?s)"
    by simp
  have opy: "openSession demo_account True ?scy Returned ?s = Returned (demo_opened True)"
    by (simp add: openSession_def call_def emit_def demo_defs)
  have ansy: "goHome_ans ?scy = Inr True" "getDashboardData_ans ?scy = Inr ?data"
    "mobileSearch ?data = Some ()" "\<not> doMobileSearch (workers demo_config)"
    "getEarnablePoints_ans ?scy = Inl (Thrown ''y'')"
    by (simp_all add: demo_script_def demo_config_def)
  from close_once_unless_earlier_fault [OF phm, where s = ?s and sc = ?scy
      and ?s1.0 = "demo_opened True" and d = ?data and b = True and c = "()" and f = "Thrown ''y''",
      THEN conjunct2, THEN conjunct2, THEN conjunct2, THEN conjunct2, THEN conjunct2,
      THEN conjunct2, THEN conjunct2, THEN conjunct2]
    opy ansy
  have 4: "unclosed (Thrown ''y'') ?s (Mobile demo_config demo_account ?scy ?s)"
    by simp
  from 1 ffx 2 3 4 show ?thesis by blast
qed

text \<open>
  C1 as stated fails: when \<open>login\<close> throws in the desktop phase, the phase ends with
  that fault and \<open>browser.close\<close> has not been called.
\<close>

theorem close_missing_when_login_raises:
  "Desktop demo_config demo_account (demo_script\<lparr>login_ans := Inl (Thrown ''LoginFailed'')\<rparr>)
       (newBot demo_config) = Raised (Thrown ''LoginFailed'') (demo_opened False)
   \<and> count_list (newEvents (newBot demo_config)
        (Desktop demo_config demo_account (demo_script\<lparr>login_ans := Inl (Thrown ''LoginFailed'')\<rparr>)
           (newBot demo_config))) BrowserClose = 0"
  by (simp add: Desktop_def openSession_def call_def emit_def newEvents_def demo_defs)

lemma Desktop_opened:
  "openSession account False sc Returned s = Returned s1 \<Longrightarrow>
     Desktop cfg account sc s = desktopBody cfg sc s1"
  unfolding Desktop_def by (rule openSession_Returned(1))

lemma Mobile_opened:
  "openSession account True sc Returned s = Returned s1 \<Longrightarrow>
     Mobile cfg account sc s = mobileBody cfg sc s1"
  unfolding Mobile_def by (rule openSession_Returned(1))

lemma opened_points:
  "openSession account m sc Returned s = Returned s1 \<Longrightarrow> collectedPoints s1 = collectedPoints s"
  using openSession_Returned(2) [of account m sc s s1] by auto

text \<open>
  C7. Once the desktop session is open, the dashboard is reached and the earnable points
  \<open>p\<close> are fetched: if \<open>runOnZeroPoints\<close> is false and \<open>p = 0\<close>, the only
  further call is \<open>browser.close\<close>; otherwise the calls that follow are always an
  initial part of the enabled executors in the order daily set, more promotions, punch cards,
  desktop search, then \<open>browser.close\<close>, and are that whole list when no enabled
  executor throws. A disabled executor is not called.
\<close>

theorem Desktop_gating:
  assumes op: "openSession account False sc Returned s = Returned s1"
    and gh: "goHome_ans sc = Inr True"
    and gd: "getDashboardData_ans sc = Inr data"
    and ge: "getEarnablePoints_ans sc = Inr p"
  shows "(\<not> runOnZeroPoints cfg \<and> p = 0 \<longrightarrow>
            newEvents s1 (Desktop cfg account sc s) =
              [GoHome, GetDashboardData, GetEarnablePoints, BrowserClose])
       \<and> (runOnZeroPoints cfg \<or> p \<noteq> 0 \<longrightarrow>
            prefix (newEvents s1 (Desktop cfg account sc s))
              ([GoHome, GetDashboardData, GetEarnablePoints] @ desktopPlan cfg @ [BrowserClose])
          \<and> ((doDailySet (workers cfg) \<longrightarrow> doDailySet_ans sc = Inr ())
             \<and> (doMorePromotions (workers cfg) \<longrightarrow> doMorePromotions_ans sc = Inr ())
             \<and> (doPunchCards (workers cfg) \<longrightarrow> doPunchCard_ans sc = Inr ())
             \<and> (doDesktopSearch (workers cfg) \<longrightarrow> doSearch_ans sc = Inr ())
             \<longrightarrow> newEvents s1 (Desktop cfg account sc s) =
                   [GoHome, GetDashboardData, GetEarnablePoints] @ desktopPlan cfg @ [BrowserClose]))"
  unfolding Desktop_opened [OF op]
  by (rule desktopBody_gating [OF refl gh gd ge])

theorem Desktop_gating_witness:
  "newEvents (demo_opened False)
     (Desktop demo_config demo_account (demo_script\<lparr>getEarnablePoints_ans := Inr 0\<rparr>)
        (newBot demo_config)) =
     [GoHome, GetDashboardData, GetEarnablePoints, BrowserClose]
   \<and> newEvents (demo_opened False)
     (Desktop (demo_config\<lparr>runOnZeroPoints := True\<rparr>) demo_account
        (demo_script\<lparr>getEarnablePoints_ans := Inr 0\<rparr>) (newBot demo_config)) =
     [GoHome, GetDashboardData, GetEarnablePoints, DoDailySet, DoPunchCard, DoSearch False,
      BrowserClose]"
proof -
  let ?sc = "demo_script\<lparr>getEarnablePoints_ans := Inr 0\<rparr>"
  have op: "openSession demo_account False ?sc Returned (newBot demo_config) =
      Returned (demo_opened False)"
    by (simp add: openSession_def call_def emit_def demo_defs)
  have gh: "goHome_ans ?sc = Inr True"
    and gd: "getDashboardData_ans ?sc = Inr \<lparr>availablePoints = 100, mobileSearch = Some ()\<rparr>"
    and ge: "getEarnablePoints_ans ?sc = Inr 0"
    by (simp_all add: demo_script_def)
  have plan: "desktopPlan (demo_config\<lparr>runOnZeroPoints := True\<rparr>) =
      [DoDailySet, DoPunchCard, DoSearch False]"
    by (simp add: desktopPlan_def demo_config_def)
  have ok: "doDailySet_ans ?sc = Inr ()" "doPunchCard_ans ?sc = Inr ()" "doSearch_ans ?sc = Inr ()"
    "\<not> doMorePromotions (workers (demo_config\<lparr>runOnZeroPoints := True\<rparr>))"
    by (simp_all add: demo_script_def demo_config_def)
  from Desktop_gating [OF op gh gd ge, of demo_config]
  have 1: "newEvents (demo_opened False)
      (Desktop demo_config demo_account ?sc (newBot demo_config)) =
      [GoHome, GetDashboardData, GetEarnablePoints, BrowserClose]"
    by (simp add: demo_config_def)
  from Desktop_gating [OF op gh gd ge, of "demo_config\<lparr>runOnZeroPoints := True\<rparr>"] ok
  have 2: "newEvents (demo_opened False)
      (Desktop (demo_config\<lparr>runOnZeroPoints := True\<rparr>) demo_account ?sc (newBot demo_config)) =
      [GoHome, GetDashboardData, GetEarnablePoints] @
        desktopPlan (demo_config\<lparr>runOnZeroPoints := True\<rparr>) @ [BrowserClose]"
    by simp
  from 1 2 plan show ?thesis by simp
qed

lemma mobileBody_skip:
  assumes "mobileBody cfg sc s = r"
    and "goHome_ans sc = Inr b"
    and "getDashboardData_ans sc = Inr data"
    and "mobileSearch data = None"
  shows "newEvents s r = [GoHome, GetDashboardData, BrowserClose]
       \<and> (browserClose_ans sc = Inr () \<longrightarrow>
            r = Returned (s\<lparr>trace := trace s @ [GoHome, GetDashboardData, BrowserClose]\<rparr>))"
  using assms by (auto simp: body_defs newEvents_def split: sum.splits)

text \<open>
  C8. In the mobile phase, when the fetched dashboard data holds no mobile-search counter, the
  calls after the fetch are \<open>browser.close\<close> alone, whatever the configuration: the
  mobile search is not called, and the phase returns when \<open>browser.close\<close> does.
\<close>

theorem Mobile_skip:
  assumes op: "openSession account True sc Returned s = Returned s1"
    and gh: "goHome_ans sc = Inr b"
    and gd: "getDashboardData_ans sc = Inr data"
    and ms: "mobileSearch data = None"
  shows "newEvents s1 (Mobile cfg account sc s) = [GoHome, GetDashboardData, BrowserClose]
       \<and> (browserClose_ans sc = Inr () \<longrightarrow>
            Mobile cfg account sc s =
              Returned (s1\<lparr>trace := trace s1 @ [GoHome, GetDashboardData, BrowserClose]\<rparr>))"
  unfolding Mobile_opened [OF op]
  by (rule mobileBody_skip [OF refl gh gd ms])

theorem Mobile_skip_witness:
  "Mobile (demo_config\<lparr>workers := (workers demo_config)\<lparr>doMobileSearch := True\<rparr>\<rparr>) demo_account
     (demo_script\<lparr>getDashboardData_ans := Inr \<lparr>availablePoints = 100, mobileSearch = None\<rparr>\<rparr>)
     (newBot demo_config) =
   Returned ((demo_opened True)\<lparr>trace := trace (demo_opened True) @
     [GoHome, GetDashboardData, BrowserClose]\<rparr>)"
proof -
  let ?sc = "demo_script\<lparr>getDashboardData_ans := Inr \<lparr>availablePoints = 100, mobileSearch = None\<rparr>\<rparr>"
  have op: "openSession demo_account True ?sc Returned (newBot demo_config) =
      Returned (demo_opened True)"
    by (simp add: openSession_def call_def emit_def demo_defs)
  have gh: "goHome_ans ?sc = Inr True"
    and gd: "getDashboardData_ans ?sc = Inr \<lparr>availablePoints = 100, mobileSearch = None\<rparr>"
    and cl: "browserClose_ans ?sc = Inr ()"
    by (simp_all add: demo_script_def)
  from Mobile_skip [OF op gh gd, of "demo_config\<lparr>workers := (workers demo_config)\<lparr>doMobileSearch := True\<rparr>\<rparr>"] cl
  show ?thesis by simp
qed

lemma mobileBody_accounting:
  assumes "mobileBody cfg sc s = r"
    and "goHome_ans sc = Inr b"
    and "getDashboardData_ans sc = Inr data"
    and "mobileSearch data = Some c"
    and "doMobileSearch (workers cfg) \<longrightarrow> doSearch_ans sc = Inr ()"
    and "getEarnablePoints_ans sc = Inr p"
  shows "newEvents s r =
           [GoHome, GetDashboardData] @ (if doMobileSearch (workers cfg) then [DoSearch True] else [])
             @ [GetEarnablePoints, BrowserClose]
       \<and> collectedPoints (finalState r) =
           (if p = 0 then collectedPoints s else collectedPoints s - p)"
  using assms by (auto simp: body_defs newEvents_def split: sum.splits)

text \<open>
  C9. In the mobile phase, with the mobile-search counter present and \<open>doMobileSearch\<close>
  false, the search executor is not called, and still the earnable points are fetched again
  and \<open>collectedPoints\<close> is adjusted by them before the session is closed.
\<close>

theorem Mobile_accounting_without_search:
  assumes op: "openSession account True sc Returned s = Returned s1"
    and gh: "goHome_ans sc = Inr b"
    and gd: "getDashboardData_ans sc = Inr data"
    and ms: "mobileSearch data = Some c"
    and off: "\<not> doMobileSearch (workers cfg)"
    and ge: "getEarnablePoints_ans sc = Inr p"
  shows "newEvents s1 (Mobile cfg account sc s) =
           [GoHome, GetDashboardData, GetEarnablePoints, BrowserClose]
       \<and> collectedPoints (finalState (Mobile cfg account sc s)) =
           (if p = 0 then collectedPoints s else collectedPoints s - p)"
  unfolding Mobile_opened [OF op]
  using mobileBody_accounting [OF refl gh gd ms _ ge, of cfg s1] off opened_points [OF op]
  by simp

theorem Mobile_accounting_without_search_witness:
  "\<not> doMobileSearch (workers demo_config)
   \<and> newEvents (demo_opened True)
       (Mobile demo_config demo_account (demo_script\<lparr>getEarnablePoints_ans := Inr 10\<rparr>)
          \<lparr>collectedPoints = 30, activeWorkers = 1, trace = []\<rparr>) =
       [GoHome, GetDashboardData, GetEarnablePoints, BrowserClose]
   \<and> collectedPoints (finalState
       (Mobile demo_config demo_account (demo_script\<lparr>getEarnablePoints_ans := Inr 10\<rparr>)
          \<lparr>collectedPoints = 30, activeWorkers = 1, trace = []\<rparr>)) = 20"
proof -
  let ?sc = "demo_script\<lparr>getEarnablePoints_ans := Inr 10\<rparr>"
  let ?s = "\<lparr>collectedPoints = 30, activeWorkers = 1, trace = []\<rparr>"
  have op: "openSession demo_account True ?sc Returned ?s =
      Returned ((demo_opened True)\<lparr>collectedPoints := 30\<rparr>)"
    by (simp add: openSession_def call_def emit_def demo_defs)
  have gh: "goHome_ans ?sc = Inr True"
    and gd: "getDashboardData_ans ?sc = Inr \<lparr>availablePoints = 100, mobileSearch = Some ()\<rparr>"
    and ms: "mobileSearch \<lparr>availablePoints = 100, mobileSearch = Some ()\<rparr> = Some ()"
    and ge: "getEarnablePoints_ans ?sc = Inr 10"
    and off: "\<not> doMobileSearch (workers demo_config)"
    by (simp_all add: demo_script_def demo_config_def)
  from Mobile_accounting_without_search [OF op gh gd ms off ge] off
  show ?thesis by (simp add: newEvents_def demo_opened_def)
qed

lemma desktopBody_points:
  assumes "desktopBody cfg sc s = r"
    and "goHome_ans sc = Inr True"
    and "getDashboardData_ans sc = Inr data"
    and "getEarnablePoints_ans sc = Inr p"
  shows "collectedPoints (finalState r) = p"
  using assms by (auto simp: body_defs split: sum.splits if_splits)

text \<open>
  C4. In the desktop phase \<open>collectedPoints\<close> becomes the earnable points just fetched
  (and keeps that value to the end of the phase). In the mobile phase, with the counter
  present and after the mobile search if it is enabled, the earnable points \<open>q\<close> are
  fetched again: \<open>collectedPoints\<close> stays as it was when \<open>q = 0\<close>, and is reduced by
  \<open>q\<close> otherwise. With 30 from the desktop phase, \<open>q = 10\<close> gives 20 and \<open>q = 0\<close>
  gives 30.
\<close>

theorem points_accounting:
  "(openSession account False dsc Returned s = Returned s1
      \<and> goHome_ans dsc = Inr True
      \<and> getDashboardData_ans dsc = Inr data
      \<and> getEarnablePoints_ans dsc = Inr p
      \<longrightarrow> collectedPoints (finalState (Desktop cfg account dsc s)) = p)
   \<and> (openSession account True msc Returned t = Returned t1
      \<and> goHome_ans msc = Inr b
      \<and> getDashboardData_ans msc = Inr mdata
      \<and> mobileSearch mdata = Some c
      \<and> (doMobileSearch (workers cfg) \<longrightarrow> doSearch_ans msc = Inr ())
      \<and> getEarnablePoints_ans msc = Inr q
      \<longrightarrow> collectedPoints (finalState (Mobile cfg account msc t)) =
            (if q = 0 then collectedPoints t else collectedPoints t - q))"
proof (intro conjI impI)
  assume "openSession account False dsc Returned s = Returned s1
      \<and> goHome_ans dsc = Inr True
      \<and> getDashboardData_ans dsc = Inr data
      \<and> getEarnablePoints_ans dsc = Inr p"
  then show "collectedPoints (finalState (Desktop cfg account dsc s)) = p"
    using desktopBody_points [OF refl, of dsc data p cfg s1]
    by (simp add: Desktop_opened)
next
  assume h: "openSession account True msc Returned t = Returned t1
      \<and> goHome_ans msc = Inr b
      \<and> getDashboardData_ans msc = Inr mdata
      \<and> mobileSearch mdata = Some c
      \<and> (doMobileSearch (workers cfg) \<longrightarrow> doSearch_ans msc = Inr ())
      \<and> getEarnablePoints_ans msc = Inr q"
  then have op: "openSession account True msc Returned t = Returned t1" by simp
  from h mobileBody_accounting [OF refl, of msc b mdata c cfg q t1]
  show "collectedPoints (finalState (Mobile cfg account msc t)) =
            (if q = 0 then collectedPoints t else collectedPoints t - q)"
    by (simp add: Mobile_opened [OF op] opened_points [OF op])
qed

theorem points_accounting_witness:
  "collectedPoints (finalState (Desktop demo_config demo_account demo_script (newBot demo_config))) = 30
   \<and> collectedPoints (finalState
        (Mobile demo_config demo_account (demo_script\<lparr>getEarnablePoints_ans := Inr 10\<rparr>)
           \<lparr>collectedPoints = 30, activeWorkers = 1, trace = []\<rparr>)) = 20
   \<and> collectedPoints (finalState
        (Mobile demo_config demo_account (demo_script\<lparr>getEarnablePoints_ans := Inr 0\<rparr>)
           \<lparr>collectedPoints = 30, activeWorkers = 1, trace = []\<rparr>)) = 30"
proof -
  let ?t = "\<lparr>collectedPoints = 30, activeWorkers = 1, trace = []\<rparr>"
  have opd: "openSession demo_account False demo_script Returned (newBot demo_config) =
      Returned (demo_opened False)"
    by (simp add: openSession_def call_def emit_def demo_defs)
  have opm: "openSession demo_account True (demo_script\<lparr>getEarnablePoints_ans := Inr e\<rparr>) Returned ?t =
      Returned ((demo_opened True)\<lparr>collectedPoints := 30\<rparr>)" for e
    by (simp add: openSession_def call_def emit_def demo_defs)
  have sc: "goHome_ans (demo_script\<lparr>getEarnablePoints_ans := Inr e\<rparr>) = Inr True"
    "getDashboardData_ans (demo_script\<lparr>getEarnablePoints_ans := Inr e\<rparr>) =
       Inr \<lparr>availablePoints = 100, mobileSearch = Some ()\<rparr>"
    "getEarnablePoints_ans (demo_script\<lparr>getEarnablePoints_ans := Inr e\<rparr>) = Inr e"
    "goHome_ans demo_script = Inr True"
    "getDashboardData_ans demo_script = Inr \<lparr>availablePoints = 100, mobileSearch = Some ()\<rparr>"
    "getEarnablePoints_ans demo_script = Inr 30"
    "\<not> doMobileSearch (workers demo_config)" for e
    by (simp_all add: demo_script_def demo_config_def)
  from points_accounting [where account = demo_account and dsc = demo_script
      and s = "newBot demo_config" and ?s1.0 = "demo_opened False" and p = 30 and cfg = demo_config
      and data = "\<lparr>availablePoints = 100, mobileSearch = Some ()\<rparr>", THEN conjunct1] opd sc
  have 1: "collectedPoints (finalState (Desktop demo_config demo_account demo_script (newBot demo_config))) = 30"
    by simp
  from points_accounting [where account = demo_account and cfg = demo_config and t = ?t
      and msc = "demo_script\<lparr>getEarnablePoints_ans := Inr 10\<rparr>" and q = 10
      and ?t1.0 = "(demo_opened True)\<lparr>collectedPoints := 30\<rparr>" and b = True
      and mdata = "\<lparr>availablePoints = 100, mobileSearch = Some ()\<rparr>" and c = "()",
      THEN conjunct2] opm sc
  have 2: "collectedPoints (finalState
        (Mobile demo_config demo_account (demo_script\<lparr>getEarnablePoints_ans := Inr 10\<rparr>) ?t)) = 20"
    by simp
  from points_accounting [where account = demo_account and cfg = demo_config and t = ?t
      and msc = "demo_script\<lparr>getEarnablePoints_ans := Inr 0\<rparr>" and q = 0
      and ?t1.0 = "(demo_opened True)\<lparr>collectedPoints := 30\<rparr>" and b = True
      and mdata = "\<lparr>availablePoints = 100, mobileSearch = Some ()\<rparr>" and c = "()",
      THEN conjunct2] opm sc
  have 3: "collectedPoints (finalState
        (Mobile demo_config demo_account (demo_script\<lparr>getEarnablePoints_ans := Inr 0\<rparr>) ?t)) = 30"
    by simp
  from 1 2 3 show ?thesis by simp
qed

section \<open>Properties of the account sequencer\<close>

lemma runLoop_append:
  "runLoop cfg (xs @ ys) s =
     (case runLoop cfg xs s of Returned s' \<Rightarrow> runLoop cfg ys s' | r \<Rightarrow> r)"
proof (induction xs arbitrary: s)
  case Nil
  show ?case by simp
next
  case (Cons v xs)
  show ?case
    by (simp add: Cons.IH split: result.splits)
qed

lemma runLoop_reach:
  "runLoop cfg pre s = Returned s0 \<Longrightarrow> runLoop cfg (pre @ v # rest) s = runLoop cfg (v # rest) s0"
  by (simp add: runLoop_append)

lemma desktopBody_Returned_points:
  "desktopBody cfg sc s = Returned s1 \<Longrightarrow> getEarnablePoints_ans sc = Inr (collectedPoints s1)"
  by (auto simp: body_defs split: sum.splits if_splits)

lemma isOpening_session: "isOpening e \<Longrightarrow> isSessionCall e \<and> \<not> isMobileStart e"
  by (cases e) simp_all

lemma phase_extends:
  assumes ext: "\<And>s r. body s = r \<Longrightarrow>
      finalState r = s\<lparr>collectedPoints := collectedPoints (finalState r),
                        trace := trace s @ newEvents s r\<rparr>"
    and ev: "\<And>s r e. body s = r \<Longrightarrow> e \<in> set (newEvents s r) \<Longrightarrow>
      isSessionCall e \<and> \<not> isMobileStart e \<and> \<not> isOpening e"
    and r: "r = openSession a m sc body s"
  shows "\<exists>evs. (\<forall>e\<in>set evs. isSessionCall e \<and> \<not> isMobileStart e) \<and>
     finalState r = s\<lparr>collectedPoints := collectedPoints (finalState r),
                       trace := trace s @ CreateBrowser (email a) (proxy a) m # evs\<rparr>"
proof -
  obtain evs s1 where o: "\<forall>e\<in>set evs. isOpening e"
    and s1: "s1 = s\<lparr>trace := trace s @ CreateBrowser (email a) (proxy a) m # evs\<rparr>"
    and c: "openSession a m sc body s = NoReturn s1 \<or>
         (\<exists>f. openSession a m sc body s = Raised f s1) \<or>
         (openSession a m sc body s = body s1 \<and>
          openSession a m sc Returned s = Returned s1 \<and>
          newEvents s (body s1) =
            CreateBrowser (email a) (proxy a) m # evs @ newEvents s1 (body s1))"
    using phase_cases [where body = body and s = s and a = a and m = m and sc = sc, OF ext]
    by metis
  have os: "\<forall>e\<in>set evs. isSessionCall e \<and> \<not> isMobileStart e"
    using o isOpening_session by blast
  from c consider (early) "finalState r = s1" | (opened) "r = body s1"
    using r by auto
  then show ?thesis
  proof cases
    case early
    then have "finalState r = s\<lparr>collectedPoints := collectedPoints (finalState r),
          trace := trace s @ CreateBrowser (email a) (proxy a) m # evs\<rparr>"
      by (simp add: s1)
    then show ?thesis using os by blast
  next
    case opened
    let ?b = "newEvents s1 r"
    have "finalState r = s1\<lparr>collectedPoints := collectedPoints (finalState r),
          trace := trace s1 @ ?b\<rparr>"
      using ext [of s1 r] opened by simp
    then have "finalState r = s\<lparr>collectedPoints := collectedPoints (finalState r),
          trace := trace s @ CreateBrowser (email a) (proxy a) m # (evs @ ?b)\<rparr>"
      by (simp add: s1)
    moreover have "\<forall>e\<in>set (evs @ ?b). isSessionCall e \<and> \<not> isMobileStart e"
      using os ev [of s1 r] opened by auto
    ultimately show ?thesis by blast
  qed
qed

lemma Desktop_extends:
  "\<exists>evs. (\<forall>e\<in>set evs. isSessionCall e \<and> \<not> isMobileStart e) \<and>
     finalState (Desktop cfg a sc s) =
       s\<lparr>collectedPoints := collectedPoints (finalState (Desktop cfg a sc s)),
         trace := trace s @ CreateBrowser (email a) (proxy a) False # evs\<rparr>"
  using desktopBody_extends [of cfg sc] desktopBody_events [of cfg sc] Desktop_def [of cfg a sc, THEN fun_cong, of s]
  by (rule phase_extends [where body = "desktopBody cfg sc"])

lemma Mobile_extends:
  "\<exists>evs. (\<forall>e\<in>set evs. isSessionCall e \<and> \<not> isMobileStart e) \<and>
     finalState (Mobile cfg a sc s) =
       s\<lparr>collectedPoints := collectedPoints (finalState (Mobile cfg a sc s)),
         trace := trace s @ CreateBrowser (email a) (proxy a) True # evs\<rparr>"
  using mobileBody_extends [of cfg sc] mobileBody_events [of cfg sc] Mobile_def [of cfg a sc, THEN fun_cong, of s]
  by (rule phase_extends [where body = "mobileBody cfg sc"])

lemma Desktop_Returned_points:
  assumes "Desktop cfg a sc s = Returned s1"
  shows "getEarnablePoints_ans sc = Inr (collectedPoints s1)"
proof -
  obtain evs s0 where
    c: "openSession a False sc (desktopBody cfg sc) s = NoReturn s0 \<or>
         (\<exists>f. openSession a False sc (desktopBody cfg sc) s = Raised f s0) \<or>
         (openSession a False sc (desktopBody cfg sc) s = desktopBody cfg sc s0 \<and>
          openSession a False sc Returned s = Returned s0 \<and>
          newEvents s (desktopBody cfg sc s0) =
            CreateBrowser (email a) (proxy a) False # evs @ newEvents s0 (desktopBody cfg sc s0))"
    using phase_cases [where body = "desktopBody cfg sc" and s = s and a = a and m = False and sc = sc,
        OF desktopBody_extends [of cfg sc]]
    by metis
  with assms have "desktopBody cfg sc s0 = Returned s1"
    by (auto simp: Desktop_def)
  then show ?thesis by (rule desktopBody_Returned_points)
qed

text \<open>
  C3. For an account \<open>v\<close> anywhere in the chunk that the sequencer reaches and whose desktop
  phase returns: \<open>collectedPoints\<close> is then the earnable points which that desktop phase
  fetched; the mobile phase is entered (a mobile browser is created in the account's turn of
  the loop) if and only if \<open>shouldSkip runOnZeroPoints collectedPoints\<close> is false; and
  when it is true the sequencer goes on with the next account from the state the desktop
  phase left.
\<close>

theorem mobile_iff_not_shouldSkip:
  assumes reach: "runLoop cfg pre s = Returned s0"
    and desk: "Desktop cfg (visit_account v) (desktop_script v) s0 = Returned s1"
  shows "getEarnablePoints_ans (desktop_script v) = Inr (collectedPoints s1)
    \<and> (list_ex isMobileStart (newEvents s0 (runLoop cfg [v] s0)) \<longleftrightarrow>
         \<not> shouldSkip (runOnZeroPoints cfg) (collectedPoints s1))
    \<and> (shouldSkip (runOnZeroPoints cfg) (collectedPoints s1) \<longrightarrow>
         runLoop cfg (pre @ v # rest) s = runLoop cfg rest s1)
    \<and> (\<not> shouldSkip (runOnZeroPoints cfg) (collectedPoints s1) \<longrightarrow>
         runLoop cfg (pre @ v # rest) s =
           (case Mobile cfg (visit_account v) (mobile_script v) s1 of
              Returned s2 \<Rightarrow> runLoop cfg rest s2
            | r \<Rightarrow> r))"
proof -
  let ?a = "visit_account v"
  let ?m = "Mobile cfg ?a (mobile_script v) s1"
  have 1: "getEarnablePoints_ans (desktop_script v) = Inr (collectedPoints s1)"
    using desk by (rule Desktop_Returned_points)
  obtain devs where d: "\<forall>e\<in>set devs. isSessionCall e \<and> \<not> isMobileStart e"
    and s1: "trace s1 = trace s0 @ CreateBrowser (email ?a) (proxy ?a) False # devs"
    using Desktop_extends [of cfg ?a "desktop_script v" s0] desk
    by (metis bot.select_convs(3) bot.surjective bot.update_convs(1) bot.update_convs(3) finalState.simps(1))
  obtain mevs where
    m: "trace (finalState ?m) = trace s1 @ CreateBrowser (email ?a) (proxy ?a) True # mevs"
    using Mobile_extends [of cfg ?a "mobile_script v" s1]
    by (metis bot.select_convs(3) bot.surjective bot.update_convs(1) bot.update_convs(3))
  have body: "runLoop cfg [v] s0 =
      (if shouldSkip (runOnZeroPoints cfg) (collectedPoints s1) then Returned s1 else ?m)"
    using desk by (simp add: shouldSkip_def split: result.splits)
  have 2: "list_ex isMobileStart (newEvents s0 (runLoop cfg [v] s0)) \<longleftrightarrow>
         \<not> shouldSkip (runOnZeroPoints cfg) (collectedPoints s1)"
    unfolding body using d by (auto simp: newEvents_def s1 m list_ex_iff)
  have step: "runLoop cfg (pre @ v # rest) s = runLoop cfg (v # rest) s0"
    using reach by (rule runLoop_reach)
  have 3: "shouldSkip (runOnZeroPoints cfg) (collectedPoints s1) \<longrightarrow>
         runLoop cfg (pre @ v # rest) s = runLoop cfg rest s1"
    using desk by (simp add: step shouldSkip_def)
  have 4: "\<not> shouldSkip (runOnZeroPoints cfg) (collectedPoints s1) \<longrightarrow>
         runLoop cfg (pre @ v # rest) s =
           (case ?m of Returned s2 \<Rightarrow> runLoop cfg rest s2 | r \<Rightarrow> r)"
    using desk by (simp add: step shouldSkip_def)
  from 1 2 3 4 show ?thesis by blast
qed

theorem mobile_iff_not_shouldSkip_witness:
  "\<not> shouldSkip (runOnZeroPoints demo_config) 30
   \<and> list_ex isMobileStart (newEvents (newBot demo_config)
         (runLoop demo_config [demo_visit] (newBot demo_config)))
   \<and> shouldSkip (runOnZeroPoints demo_config) 0
   \<and> \<not> list_ex isMobileStart (newEvents (newBot demo_config)
         (runLoop demo_config
            [demo_visit\<lparr>desktop_script := demo_script\<lparr>getEarnablePoints_ans := Inr 0\<rparr>\<rparr>]
            (newBot demo_config)))"
proof -
  let ?s = "newBot demo_config"
  let ?vz = "demo_visit\<lparr>desktop_script := demo_script\<lparr>getEarnablePoints_ans := Inr 0\<rparr>\<rparr>"
  let ?full = "(demo_opened False)\<lparr>collectedPoints := 30,
        trace := trace (demo_opened False) @
          [GoHome, GetDashboardData, GetEarnablePoints, DoDailySet, DoPunchCard, DoSearch False,
           BrowserClose]\<rparr>"
  let ?gated = "(demo_opened False)\<lparr>collectedPoints := 0,
        trace := trace (demo_opened False) @
          [GoHome, GetDashboardData, GetEarnablePoints, BrowserClose]\<rparr>"
  have reach: "runLoop demo_config [] ?s = Returned ?s" by simp
  have d30: "Desktop demo_config (visit_account demo_visit) (desktop_script demo_visit) ?s =
      Returned ?full"
    by (simp add: Desktop_def openSession_def body_defs demo_defs)
  have d0: "Desktop demo_config (visit_account ?vz) (desktop_script ?vz) ?s = Returned ?gated"
    by (simp add: Desktop_def openSession_def body_defs demo_defs)
  have g: "\<not> shouldSkip (runOnZeroPoints demo_config) 30"
    "shouldSkip (runOnZeroPoints demo_config) 0"
    by (simp_all add: shouldSkip_def demo_config_def)
  from mobile_iff_not_shouldSkip [OF reach d30, where rest = "[]", THEN conjunct2, THEN conjunct1] g
  have 1: "list_ex isMobileStart (newEvents ?s (runLoop demo_config [demo_visit] ?s))"
    by (simp del: runLoop.simps)
  from mobile_iff_not_shouldSkip [OF reach d0, where rest = "[]", THEN conjunct2, THEN conjunct1] g
  have 2: "\<not> list_ex isMobileStart (newEvents ?s (runLoop demo_config [?vz] ?s))"
    by (simp del: runLoop.simps)
  from g 1 2 show ?thesis by simp
qed

text \<open>
  C6. When the sequencer reaches an account whose desktop phase cannot go home, the fault
  \<open>DashboardUnreachable\<close> raised after \<open>goHome\<close> is the result of \<open>runTasks\<close>:
  whatever accounts remain are not processed and \<open>process.exit\<close> is not reached. The same
  holds for every fault that a desktop or a mobile phase raises: the sequencer catches none.
\<close>

theorem fault_aborts_lane:
  assumes reach: "runLoop cfg pre s = Returned s0"
  shows "(openSession (visit_account v) False (desktop_script v) Returned s0 = Returned s1
          \<and> goHome_ans (desktop_script v) = Inr False
          \<longrightarrow> runTasks cfg (pre @ v # rest) s = Raised DashboardUnreachable (emit GoHome s1))
    \<and> (Desktop cfg (visit_account v) (desktop_script v) s0 = Raised f s'
          \<longrightarrow> runTasks cfg (pre @ v # rest) s = Raised f s')
    \<and> (Desktop cfg (visit_account v) (desktop_script v) s0 = Returned s2
          \<and> \<not> shouldSkip (runOnZeroPoints cfg) (collectedPoints s2)
          \<and> Mobile cfg (visit_account v) (mobile_script v) s2 = Raised f s'
          \<longrightarrow> runTasks cfg (pre @ v # rest) s = Raised f s')"
proof -
  have step: "runLoop cfg (pre @ v # rest) s = runLoop cfg (v # rest) s0"
    using reach by (rule runLoop_reach)
  have home: "Desktop cfg (visit_account v) (desktop_script v) s0 =
        Raised DashboardUnreachable (emit GoHome s1)"
    if "openSession (visit_account v) False (desktop_script v) Returned s0 = Returned s1"
      and "goHome_ans (desktop_script v) = Inr False"
    using that by (simp add: Desktop_opened desktopBody_def call_def)
  show ?thesis
    using home by (simp add: runTasks_def step shouldSkip_def)
qed

theorem fault_aborts_lane_witness:
  "runTasks demo_config
     [demo_visit\<lparr>desktop_script := demo_script\<lparr>goHome_ans := Inr False\<rparr>\<rparr>, demo_visit]
     (newBot demo_config) =
     Raised DashboardUnreachable (emit GoHome (demo_opened False))
   \<and> runTasks demo_config
     [demo_visit\<lparr>mobile_script := demo_script\<lparr>createBrowser_ans := Inl (Thrown ''x'')\<rparr>\<rparr>, demo_visit]
     (newBot demo_config) =
     Raised (Thrown ''x'')
       ((demo_opened False)\<lparr>collectedPoints := 30,
          trace := trace (demo_opened False) @
            [GoHome, GetDashboardData, GetEarnablePoints, DoDailySet, DoPunchCard, DoSearch False,
             BrowserClose, CreateBrowser ''a@b'' \<lparr>proxy_username = ''u'', proxy_password = ''p''\<rparr> True]\<rparr>)"
proof -
  let ?s = "newBot demo_config"
  let ?vh = "demo_visit\<lparr>desktop_script := demo_script\<lparr>goHome_ans := Inr False\<rparr>\<rparr>"
  let ?vm = "demo_visit\<lparr>mobile_script := demo_script\<lparr>createBrowser_ans := Inl (Thrown ''x'')\<rparr>\<rparr>"
  let ?full = "(demo_opened False)\<lparr>collectedPoints := 30,
        trace := trace (demo_opened False) @
          [GoHome, GetDashboardData, GetEarnablePoints, DoDailySet, DoPunchCard, DoSearch False,
           BrowserClose]\<rparr>"
  let ?stuck = "(demo_opened False)\<lparr>collectedPoints := 30,
          trace := trace (demo_opened False) @
            [GoHome, GetDashboardData, GetEarnablePoints, DoDailySet, DoPunchCard, DoSearch False,
             BrowserClose, CreateBrowser ''a@b'' \<lparr>proxy_username = ''u'', proxy_password = ''p''\<rparr> True]\<rparr>"
  have reach: "runLoop demo_config [] ?s = Returned ?s" by simp
  have op: "openSession (visit_account ?vh) False (desktop_script ?vh) Returned ?s =
      Returned (demo_opened False)"
    by (simp add: openSession_def call_def emit_def demo_defs)
  have gh: "goHome_ans (desktop_script ?vh) = Inr False"
    by (simp add: demo_defs)
  have d: "Desktop demo_config (visit_account ?vm) (desktop_script ?vm) ?s = Returned ?full"
    by (simp add: Desktop_def openSession_def body_defs demo_defs)
  have g: "\<not> shouldSkip (runOnZeroPoints demo_config) (collectedPoints ?full)"
    by (simp add: shouldSkip_def)
  have m: "Mobile demo_config (visit_account ?vm) (mobile_script ?vm) ?full = Raised (Thrown ''x'') ?stuck"
    by (simp add: Mobile_def openSession_def body_defs demo_defs)
  from fault_aborts_lane [OF reach, where v = ?vh and ?s1.0 = "demo_opened False"
      and rest = "[demo_visit]"] op gh
  have 1: "runTasks demo_config [?vh, demo_visit] ?s =
      Raised DashboardUnreachable (emit GoHome (demo_opened False))"
    by simp
  from fault_aborts_lane [OF reach, where v = ?vm and ?s2.0 = ?full and f = "Thrown ''x''"
      and s' = ?stuck and rest = "[demo_visit]"] d g m
  have 2: "runTasks demo_config [?vm, demo_visit] ?s = Raised (Thrown ''x'') ?stuck"
    by simp
  from 1 2 show ?thesis by simp
qed

lemma Desktop_trace:
  obtains evs where "\<forall>e\<in>set evs. isSessionCall e"
    and "trace (finalState (Desktop cfg a sc s)) = trace s @ evs"
proof -
  from Desktop_extends [of cfg a sc s] obtain evs where
    e: "\<forall>e\<in>set evs. isSessionCall e \<and> \<not> isMobileStart e"
    and f: "finalState (Desktop cfg a sc s) =
       s\<lparr>collectedPoints := collectedPoints (finalState (Desktop cfg a sc s)),
         trace := trace s @ CreateBrowser (email a) (proxy a) False # evs\<rparr>"
    by blast
  from f have "trace (finalState (Desktop cfg a sc s)) =
      trace s @ CreateBrowser (email a) (proxy a) False # evs"
    by (metis bot.select_convs(3) bot.surjective bot.update_convs(1) bot.update_convs(3))
  moreover have "\<forall>e\<in>set (CreateBrowser (email a) (proxy a) False # evs). isSessionCall e"
    using e by simp
  ultimately show thesis using that by blast
qed

lemma Mobile_trace:
  obtains evs where "\<forall>e\<in>set evs. isSessionCall e"
    and "trace (finalState (Mobile cfg a sc s)) = trace s @ evs"
proof -
  from Mobile_extends [of cfg a sc s] obtain evs where
    e: "\<forall>e\<in>set evs. isSessionCall e \<and> \<not> isMobileStart e"
    and f: "finalState (Mobile cfg a sc s) =
       s\<lparr>collectedPoints := collectedPoints (finalState (Mobile cfg a sc s)),
         trace := trace s @ CreateBrowser (email a) (proxy a) True # evs\<rparr>"
    by blast
  from f have "trace (finalState (Mobile cfg a sc s)) =
      trace s @ CreateBrowser (email a) (proxy a) True # evs"
    by (metis bot.select_convs(3) bot.surjective bot.update_convs(1) bot.update_convs(3))
  moreover have "\<forall>e\<in>set (CreateBrowser (email a) (proxy a) True # evs). isSessionCall e"
    using e by simp
  ultimately show thesis using that by blast
qed

lemma runLoop_trace:
  "\<exists>evs. (\<forall>e\<in>set evs. isSessionCall e) \<and>
     trace (finalState (runLoop cfg vs s)) = trace s @ evs"
proof (induction vs arbitrary: s)
  case Nil
  show ?case by simp
next
  case (Cons v vs)
  let ?d = "Desktop cfg (visit_account v) (desktop_script v) s"
  obtain devs where d: "\<forall>e\<in>set devs. isSessionCall e"
    "trace (finalState ?d) = trace s @ devs"
    by (rule Desktop_trace)
  have later: "\<exists>evs. (\<forall>e\<in>set evs. isSessionCall e) \<and>
      trace (finalState (runLoop cfg vs t)) = trace s @ evs"
    if "\<forall>e\<in>set tevs. isSessionCall e" "trace t = trace s @ tevs" for t tevs
  proof -
    from Cons.IH [of t] obtain evs where "\<forall>e\<in>set evs. isSessionCall e"
      "trace (finalState (runLoop cfg vs t)) = trace t @ evs"
      by blast
    then have "\<forall>e\<in>set (tevs @ evs). isSessionCall e"
      "trace (finalState (runLoop cfg vs t)) = trace s @ (tevs @ evs)"
      using that by auto
    then show ?thesis by blast
  qed
  show ?case
  proof (cases ?d)
    case (Returned s1)
    then have s1: "trace s1 = trace s @ devs" using d(2) by simp
    let ?m = "Mobile cfg (visit_account v) (mobile_script v) s1"
    obtain mevs where m: "\<forall>e\<in>set mevs. isSessionCall e"
      "trace (finalState ?m) = trace s1 @ mevs"
      by (rule Mobile_trace)
    have m': "\<forall>e\<in>set (devs @ mevs). isSessionCall e"
      "trace (finalState ?m) = trace s @ (devs @ mevs)"
      using d(1) m s1 by auto
    show ?thesis
    proof (cases "\<not> runOnZeroPoints cfg \<and> collectedPoints s1 = 0")
      case True
      then show ?thesis using Returned later [OF d(1) s1] by simp
    next
      case False
      show ?thesis
      proof (cases ?m)
        case (Returned s2)
        then have "trace s2 = trace s @ (devs @ mevs)" using m'(2) by simp
        from later [OF m'(1) this] show ?thesis
          using \<open>?d = Returned s1\<close> False Returned by auto
      next
        case (Raised f s2)
        then show ?thesis using \<open>?d = Returned s1\<close> False m' by (auto simp del: set_append)
      next
        case (Exited c s2)
        then show ?thesis using \<open>?d = Returned s1\<close> False m' by (auto simp del: set_append)
      next
        case (NoReturn s2)
        then show ?thesis using \<open>?d = Returned s1\<close> False m' by (auto simp del: set_append)
      qed
    qed
  next
    case (Raised f s1)
    then show ?thesis using d by auto
  next
    case (Exited c s1)
    then show ?thesis using d by auto
  next
    case (NoReturn s1)
    then show ?thesis using d by auto
  qed
qed

lemma isSessionCall_not_Fork: "isSessionCall e \<Longrightarrow> \<not> isFork e"
  by (cases e) simp_all

lemma runTasks_no_fork: "\<not> list_ex isFork (newEvents s (runTasks cfg vs s))"
proof -
  from runLoop_trace [of cfg vs s] obtain evs where e: "\<forall>e\<in>set evs. isSessionCall e"
    and t: "trace (finalState (runLoop cfg vs s)) = trace s @ evs"
    by blast
  show ?thesis
    using e t isSessionCall_not_Fork
    by (cases "runLoop cfg vs s") (auto simp: runTasks_def newEvents_def emit_def list_ex_iff)
qed

section \<open>Properties of the process distributor\<close>

lemma forkWorkers_closed:
  "forkWorkers i chunks s =
     s\<lparr>trace := trace s @
         concat (map2 (\<lambda>j chunk. [Fork j, Send j chunk]) [i..<i + length chunks] chunks)\<rparr>"
proof (induction chunks arbitrary: i s)
  case Nil
  show ?case by simp
next
  case (Cons c chunks)
  have u: "[i..<Suc (i + length chunks)] = i # [Suc i..<Suc (i + length chunks)]"
    by (rule upt_conv_Cons) simp
  show ?case by (simp del: upt_Suc add: u Cons.IH emit_def)
qed

lemma deliver_count:
  "0 < activeWorkers s \<Longrightarrow>
     deliver signals s =
       (if int (length signals) < activeWorkers s
        then Returned (s\<lparr>activeWorkers := activeWorkers s - int (length signals)\<rparr>)
        else Exited 0 (emit (ProcessExit 0) (s\<lparr>activeWorkers := 0\<rparr>)))"
proof (induction signals arbitrary: s)
  case Nil
  then show ?case by simp
next
  case (Cons x signals)
  obtain worker code where x: "x = (worker, code)" by (cases x)
  show ?case
  proof (cases "activeWorkers s = 1")
    case True
    then show ?thesis by (simp add: x onExit_def)
  next
    case False
    then have pos: "0 < activeWorkers (s\<lparr>activeWorkers := activeWorkers s - 1\<rparr>)"
      using Cons.prems by simp
    show ?thesis
      using False Cons.IH [OF pos] by (simp add: x onExit_def)
  qed
qed

lemma fork_events_count:
  "length (filter isFork (concat (map (\<lambda>(j, chunk). [Fork j, Send j chunk]) ps))) = length ps"
  by (induction ps) auto

lemma fork_events_no_session:
  "\<not> list_ex isSessionCall (concat (map (\<lambda>(j, chunk). [Fork j, Send j chunk]) ps))"
  by (induction ps) auto

text \<open>
  C5. Let the coordinator have forked one lane per chunk, the chunks being as many as
  \<open>config.clusters\<close> (which is what the partitioner is specified to return). Then for
  every sequence of exit signals, in whatever order and from whatever workers and with
  whatever codes: while fewer signals than lanes have arrived the coordinator has not exited
  and \<open>activeWorkers\<close> is the number of lanes still to report; with the signal that
  brings \<open>activeWorkers\<close> to zero, the last lane's, it exits with code 0.
\<close>

theorem coordinator_exit:
  assumes "1 < clusters cfg"
    and "chunkArray accounts (clusters cfg) = Inr chunks"
    and "int (length chunks) = clusters cfg"
  shows "\<exists>s1. runMaster cfg accounts (newBot cfg) = Returned s1
     \<and> length (filter isFork (trace s1)) = length chunks
     \<and> (\<forall>signals. deliver signals s1 =
           (if length signals < length chunks
            then Returned (s1\<lparr>activeWorkers := int (length chunks) - int (length signals)\<rparr>)
            else Exited 0 (emit (ProcessExit 0) (s1\<lparr>activeWorkers := 0\<rparr>))))"
proof -
  let ?s1 = "forkWorkers 0 chunks (newBot cfg)"
  have r: "runMaster cfg accounts (newBot cfg) = Returned ?s1"
    using assms(2) by (simp add: runMaster_def)
  have tr: "trace ?s1 =
      concat (map2 (\<lambda>j chunk. [Fork j, Send j chunk]) [0..<0 + length chunks] chunks)"
    by (subst forkWorkers_closed) (simp add: newBot_def)
  have n: "length (filter isFork (trace ?s1)) = length chunks"
    unfolding tr by (simp add: fork_events_count)
  have aw: "activeWorkers ?s1 = int (length chunks)"
    by (subst forkWorkers_closed) (simp add: newBot_def assms(3))
  then have pos: "0 < activeWorkers ?s1" using assms(1,3) by simp
  have d: "deliver signals ?s1 =
           (if length signals < length chunks
            then Returned (?s1\<lparr>activeWorkers := int (length chunks) - int (length signals)\<rparr>)
            else Exited 0 (emit (ProcessExit 0) (?s1\<lparr>activeWorkers := 0\<rparr>)))" for signals
    using deliver_count [OF pos, of signals] by (simp add: aw)
  from r n d show ?thesis by blast
qed

theorem coordinator_exit_witness:
  "1 < clusters (demo_config\<lparr>clusters := 3\<rparr>)
   \<and> chunkArray [demo_account, demo_account, demo_account, demo_account] 3 =
       Inr [[demo_account, demo_account], [demo_account], [demo_account]]
   \<and> (\<exists>s1. runMaster (demo_config\<lparr>clusters := 3\<rparr>)
              [demo_account, demo_account, demo_account, demo_account]
              (newBot (demo_config\<lparr>clusters := 3\<rparr>)) = Returned s1
         \<and> length (filter isFork (trace s1)) = 3
         \<and> deliver [(2, 0), (0, 1)] s1 = Returned (s1\<lparr>activeWorkers := 1\<rparr>)
         \<and> deliver [(2, 0), (0, 1), (1, 0)] s1 =
             Exited 0 (emit (ProcessExit 0) (s1\<lparr>activeWorkers := 0\<rparr>)))"
proof -
  let ?cfg = "demo_config\<lparr>clusters := 3\<rparr>"
  let ?accounts = "[demo_account, demo_account, demo_account, demo_account]"
  let ?chunks = "[[demo_account, demo_account], [demo_account], [demo_account]]"
  have h: "1 < clusters ?cfg" by simp
  have c0: "chunkArray ?accounts 3 = Inr ?chunks"
    by code_simp
  then have c: "chunkArray ?accounts (clusters ?cfg) = Inr ?chunks"
    by simp
  have l: "int (length ?chunks) = clusters ?cfg" by simp
  from coordinator_exit [OF h c l] obtain s1 where
    r: "runMaster ?cfg ?accounts (newBot ?cfg) = Returned s1"
    and n: "length (filter isFork (trace s1)) = length ?chunks"
    and d: "\<And>signals. deliver signals s1 =
           (if length signals < length ?chunks
            then Returned (s1\<lparr>activeWorkers := int (length ?chunks) - int (length signals)\<rparr>)
            else Exited 0 (emit (ProcessExit 0) (s1\<lparr>activeWorkers := 0\<rparr>)))"
    by blast
  have d2: "deliver [(2, 0), (0, 1)] s1 = Returned (s1\<lparr>activeWorkers := 1\<rparr>)"
    by (subst d) simp
  have d3: "deliver [(2, 0), (0, 1), (1, 0)] s1 =
      Exited 0 (emit (ProcessExit 0) (s1\<lparr>activeWorkers := 0\<rparr>))"
    by (subst d) simp
  from h c0 r n d2 d3 show ?thesis by simp
qed

lemma desktopStarts_append: "desktopStarts (xs @ ys) = desktopStarts xs @ desktopStarts ys"
  by (induction xs rule: desktopStarts.induct) simp_all

lemma desktopStarts_opening: "\<forall>e\<in>set evs. isOpening e \<Longrightarrow> desktopStarts evs = []"
  by (induction evs rule: desktopStarts.induct) simp_all

lemma desktopBody_starts: "desktopBody cfg sc s = r \<Longrightarrow> desktopStarts (newEvents s r) = []"
  by (auto simp: body_defs newEvents_def split: sum.splits if_splits)

lemma mobileBody_starts: "mobileBody cfg sc s = r \<Longrightarrow> desktopStarts (newEvents s r) = []"
  by (auto simp: body_defs newEvents_def split: sum.splits if_splits)

lemma desktopBody_ends: "desktopBody cfg sc s \<noteq> Exited c s'"
  using desktopBody_close [OF refl, where cfg = cfg and sc = sc and s = s] by (auto split: result.splits)

lemma mobileBody_ends: "mobileBody cfg sc s \<noteq> Exited c s'"
  using mobileBody_close [OF refl, where cfg = cfg and sc = sc and s = s] by (auto split: result.splits)

lemma phase_starts:
  assumes ext: "\<And>s r. body s = r \<Longrightarrow>
      finalState r = s\<lparr>collectedPoints := collectedPoints (finalState r),
                        trace := trace s @ newEvents s r\<rparr>"
    and st: "\<And>s r. body s = r \<Longrightarrow> desktopStarts (newEvents s r) = []"
    and ends: "\<And>s c s'. body s \<noteq> Exited c s'"
    and r: "r = openSession a m sc body s"
  shows "desktopStarts (newEvents s r) = (if m then [] else [email a])"
    and "r \<noteq> Exited c s'"
proof -
  obtain evs s1 where o: "\<forall>e\<in>set evs. isOpening e"
    and s1: "s1 = s\<lparr>trace := trace s @ CreateBrowser (email a) (proxy a) m # evs\<rparr>"
    and c: "openSession a m sc body s = NoReturn s1 \<or>
         (\<exists>f. openSession a m sc body s = Raised f s1) \<or>
         (openSession a m sc body s = body s1 \<and>
          openSession a m sc Returned s = Returned s1 \<and>
          newEvents s (body s1) =
            CreateBrowser (email a) (proxy a) m # evs @ newEvents s1 (body s1))"
    using phase_cases [where body = body and s = s and a = a and m = m and sc = sc, OF ext]
    by metis
  from c consider (early) "finalState r = s1" "r = NoReturn s1 \<or> (\<exists>f. r = Raised f s1)"
    | (opened) "r = body s1"
      "newEvents s r = CreateBrowser (email a) (proxy a) m # evs @ newEvents s1 r"
    using r by auto
  then have "desktopStarts (newEvents s r) = (if m then [] else [email a]) \<and> r \<noteq> Exited c s'"
  proof cases
    case early
    then have "newEvents s r = CreateBrowser (email a) (proxy a) m # evs"
      by (simp add: newEvents_def s1)
    then show ?thesis using early(2) desktopStarts_opening [OF o] by auto
  next
    case opened
    then show ?thesis
      using desktopStarts_opening [OF o] st [of s1 r] ends [of s1 c s']
      by (simp add: desktopStarts_append)
  qed
  then show "desktopStarts (newEvents s r) = (if m then [] else [email a])"
    and "r \<noteq> Exited c s'" by simp_all
qed

lemma Desktop_starts: "desktopStarts (newEvents s (Desktop cfg a sc s)) = [email a]"
proof -
  have "desktopStarts (newEvents s (Desktop cfg a sc s)) = (if False then [] else [email a])"
    using desktopBody_extends [of cfg sc] desktopBody_starts [of cfg sc] desktopBody_ends [of cfg sc]
      Desktop_def [of cfg a sc, THEN fun_cong, of s]
    by (rule phase_starts(1) [where body = "desktopBody cfg sc"])
  then show ?thesis by simp
qed

lemma Desktop_ends: "Desktop cfg a sc s \<noteq> Exited c s'"
  using desktopBody_extends [of cfg sc] desktopBody_starts [of cfg sc] desktopBody_ends [of cfg sc]
    Desktop_def [of cfg a sc, THEN fun_cong, of s]
  by (rule phase_starts(2) [where body = "desktopBody cfg sc"])

lemma Mobile_starts: "desktopStarts (newEvents s (Mobile cfg a sc s)) = []"
proof -
  have "desktopStarts (newEvents s (Mobile cfg a sc s)) = (if True then [] else [email a])"
    using mobileBody_extends [of cfg sc] mobileBody_starts [of cfg sc] mobileBody_ends [of cfg sc]
      Mobile_def [of cfg a sc, THEN fun_cong, of s]
    by (rule phase_starts(1) [where body = "mobileBody cfg sc"])
  then show ?thesis by simp
qed

lemma Mobile_ends: "Mobile cfg a sc s \<noteq> Exited c s'"
  using mobileBody_extends [of cfg sc] mobileBody_starts [of cfg sc] mobileBody_ends [of cfg sc]
    Mobile_def [of cfg a sc, THEN fun_cong, of s]
  by (rule phase_starts(2) [where body = "mobileBody cfg sc"])

lemma newEvents_of_trace: "trace (finalState r) = trace s @ evs \<Longrightarrow> newEvents s r = evs"
  by (simp add: newEvents_def)

lemma Desktop_grows:
  "trace (finalState (Desktop cfg a sc s)) = trace s @ newEvents s (Desktop cfg a sc s)"
  using Desktop_trace [of cfg a sc s] newEvents_of_trace by metis

lemma Mobile_grows:
  "trace (finalState (Mobile cfg a sc s)) = trace s @ newEvents s (Mobile cfg a sc s)"
  using Mobile_trace [of cfg a sc s] newEvents_of_trace by metis

lemma runLoop_grows:
  "trace (finalState (runLoop cfg vs s)) = trace s @ newEvents s (runLoop cfg vs s)"
  using runLoop_trace [of cfg vs s] newEvents_of_trace by metis

lemma newEvents_compose:
  "trace t = trace s @ a \<Longrightarrow> trace (finalState r) = trace t @ b \<Longrightarrow> newEvents s r = a @ b"
  by (simp add: newEvents_def)


lemma runLoop_accounts:
  "prefix (desktopStarts (newEvents s (runLoop cfg vs s))) (map (email \<circ> visit_account) vs)
   \<and> (\<forall>c s'. runLoop cfg vs s \<noteq> Exited c s')
   \<and> (\<forall>s'. runLoop cfg vs s = Returned s' \<longrightarrow>
         desktopStarts (newEvents s (runLoop cfg vs s)) = map (email \<circ> visit_account) vs)
   \<and> ((\<forall>v\<in>set vs.
          (\<forall>t. \<exists>t'. Desktop cfg (visit_account v) (desktop_script v) t = Returned t')
        \<and> (\<forall>t. \<exists>t'. Mobile cfg (visit_account v) (mobile_script v) t = Returned t'))
       \<longrightarrow> (\<exists>s'. runLoop cfg vs s = Returned s'))"
proof (induction vs arbitrary: s)
  case Nil
  show ?case by (simp add: newEvents_def)
next
  case (Cons v vs)
  let ?a = "visit_account v"
  let ?D = "Desktop cfg ?a (desktop_script v) s"
  let ?all = "map (email \<circ> visit_account) vs"
  let ?ok = "\<lambda>ws. \<forall>v\<in>set ws.
          (\<forall>t. \<exists>t'. Desktop cfg (visit_account v) (desktop_script v) t = Returned t')
        \<and> (\<forall>t. \<exists>t'. Mobile cfg (visit_account v) (mobile_script v) t = Returned t')"
  let ?goal = "\<lambda>r. prefix (desktopStarts (newEvents s r)) (email ?a # ?all)
   \<and> (\<forall>c s'. r \<noteq> Exited c s')
   \<and> (\<forall>s'. r = Returned s' \<longrightarrow> desktopStarts (newEvents s r) = email ?a # ?all)
   \<and> (?ok (v # vs) \<longrightarrow> (\<exists>s'. r = Returned s'))"
  have cont: "?goal (runLoop cfg vs t)"
    if t: "trace t = trace s @ pre" and pre: "desktopStarts pre = [email ?a]" for t pre
  proof -
    have "newEvents s (runLoop cfg vs t) = pre @ newEvents t (runLoop cfg vs t)"
      using t runLoop_grows by (rule newEvents_compose)
    then have "desktopStarts (newEvents s (runLoop cfg vs t)) =
        email ?a # desktopStarts (newEvents t (runLoop cfg vs t))"
      by (simp add: desktopStarts_append pre)
    then show ?thesis using Cons.IH [of t] by (auto simp: comp_def)
  qed
  have okD: "\<exists>t'. ?D = Returned t'" if "?ok (v # vs)"
    using that by simp
  have okM: "\<exists>t'. Mobile cfg ?a (mobile_script v) t = Returned t'" if "?ok (v # vs)" for t
    using that by simp
  have stop: "?goal r"
    if "trace (finalState r) = trace s @ evs" "desktopStarts evs = [email ?a]"
      "\<forall>c s'. r \<noteq> Exited c s'" "\<forall>s'. r \<noteq> Returned s'"
      "r = ?D \<or> r = Mobile cfg ?a (mobile_script v) t" for r evs t
  proof -
    have "newEvents s r = evs" using that(1) by (rule newEvents_of_trace)
    moreover have "?ok (v # vs) \<longrightarrow> False"
      using okD okM [of t] that(4,5) by blast
    ultimately show ?thesis using that(2,3,4) by simp
  qed
  have gD: "trace (finalState ?D) = trace s @ newEvents s ?D" by (rule Desktop_grows)
  have sD: "desktopStarts (newEvents s ?D) = [email ?a]" by (rule Desktop_starts)
  have eq: "map (email \<circ> visit_account) (v # vs) = email ?a # ?all" by simp
  have main: "?goal (runLoop cfg (v # vs) s)"
  proof (cases ?D)
    case (Returned s1)
    then have t1: "trace s1 = trace s @ newEvents s ?D" using gD by simp
    let ?M = "Mobile cfg ?a (mobile_script v) s1"
    show ?thesis
    proof (cases "\<not> runOnZeroPoints cfg \<and> collectedPoints s1 = 0")
      case True
      then have r: "runLoop cfg (v # vs) s = runLoop cfg vs s1" using Returned by simp
      show ?thesis unfolding r by (rule cont [OF t1 sD])
    next
      case False
      have gM: "trace (finalState ?M) = trace s1 @ newEvents s1 ?M" by (rule Mobile_grows)
      have sM: "desktopStarts (newEvents s1 ?M) = []" by (rule Mobile_starts)
      have tM: "trace (finalState ?M) = trace s @ (newEvents s ?D @ newEvents s1 ?M)"
        using gM t1 by simp
      have sDM: "desktopStarts (newEvents s ?D @ newEvents s1 ?M) = [email ?a]"
        by (simp add: desktopStarts_append sD sM)
      show ?thesis
      proof (cases ?M)
        case (Returned s2)
        then have r: "runLoop cfg (v # vs) s = runLoop cfg vs s2"
          using \<open>?D = Returned s1\<close> False by auto
        have t2: "trace s2 = trace s @ (newEvents s ?D @ newEvents s1 ?M)"
          using tM Returned by simp
        show ?thesis unfolding r by (rule cont [OF t2 sDM])
      next
        case (Raised f s2)
        then have r: "runLoop cfg (v # vs) s = ?M" using \<open>?D = Returned s1\<close> False by auto
        show ?thesis unfolding r
          by (rule stop [OF tM sDM _ _ disjI2 [OF refl]]) (simp_all add: Raised)
      next
        case (Exited c s2)
        then show ?thesis using Mobile_ends by blast
      next
        case (NoReturn s2)
        then have r: "runLoop cfg (v # vs) s = ?M" using \<open>?D = Returned s1\<close> False by auto
        show ?thesis unfolding r
          by (rule stop [OF tM sDM _ _ disjI2 [OF refl]]) (simp_all add: NoReturn)
      qed
    qed
  next
    case (Raised f s1)
    then have r: "runLoop cfg (v # vs) s = ?D" by simp
    show ?thesis unfolding r
      by (rule stop [OF gD sD _ _ disjI1 [OF refl]]) (simp_all add: Raised)
  next
    case (Exited c s1)
    then show ?thesis using Desktop_ends by blast
  next
    case (NoReturn s1)
    then have r: "runLoop cfg (v # vs) s = ?D" by simp
    show ?thesis unfolding r
      by (rule stop [OF gD sD _ _ disjI1 [OF refl]]) (simp_all add: NoReturn)
  qed
  show ?case unfolding eq by (rule main)
qed


lemma runTasks_accounts:
  "prefix (desktopStarts (newEvents s (runTasks cfg vs s))) (map (email \<circ> visit_account) vs)
   \<and> (\<forall>s'. runTasks cfg vs s \<noteq> Returned s')
   \<and> (\<forall>c s'. runTasks cfg vs s = Exited c s' \<longrightarrow>
         c = 0 \<and> desktopStarts (newEvents s (runTasks cfg vs s)) = map (email \<circ> visit_account) vs)
   \<and> ((\<forall>v\<in>set vs.
          (\<forall>t. \<exists>t'. Desktop cfg (visit_account v) (desktop_script v) t = Returned t')
        \<and> (\<forall>t. \<exists>t'. Mobile cfg (visit_account v) (mobile_script v) t = Returned t'))
       \<longrightarrow> (\<exists>s'. runTasks cfg vs s = Exited 0 s')
           \<and> desktopStarts (newEvents s (runTasks cfg vs s)) = map (email \<circ> visit_account) vs)"
proof -
  let ?L = "runLoop cfg vs s"
  note L = runLoop_accounts [of s cfg vs]
  show ?thesis
  proof (cases ?L)
    case (Returned s1)
    then have t: "runTasks cfg vs s = Exited 0 (emit (ProcessExit 0) s1)"
      by (simp add: runTasks_def)
    have "trace s1 = trace s @ newEvents s ?L"
      using runLoop_grows [of cfg vs s] Returned by simp
    then have "newEvents s (runTasks cfg vs s) = newEvents s ?L @ [ProcessExit 0]"
      unfolding t by (simp add: newEvents_def emit_def)
    then have "desktopStarts (newEvents s (runTasks cfg vs s)) = desktopStarts (newEvents s ?L)"
      by (simp add: desktopStarts_append)
    moreover have "desktopStarts (newEvents s ?L) = map (email \<circ> visit_account) vs"
      using L Returned by blast
    ultimately show ?thesis by (simp add: t)
  next
    case (Raised f s1)
    then have t: "runTasks cfg vs s = ?L" by (simp add: runTasks_def)
    show ?thesis unfolding t using L Raised by auto
  next
    case (Exited c s1)
    then show ?thesis using L by blast
  next
    case (NoReturn s1)
    then have t: "runTasks cfg vs s = ?L" by (simp add: runTasks_def)
    show ?thesis unfolding t using L NoReturn by auto
  qed
qed

text \<open>
  C10. With more than one cluster the primary process only distributes: for the chunks that
  the partitioner returns, its calls are \<open>fork\<close> and \<open>send\<close> once per chunk, in
  order, each chunk going to the worker forked for it, and it makes no session call. With one
  cluster or fewer, \<open>run\<close> is \<open>runTasks\<close> on all the accounts and nothing is forked:
  the process itself starts the desktop session of the accounts one after the other in list
  order, skipping none; it never just returns; when it exits, the code is 0 and every account
  has been started exactly once; and it does exit so whenever no phase of any account throws
  or hangs.
\<close>

theorem run_roles:
  "(1 < clusters cfg \<and> chunkArray (map visit_account vs) (clusters cfg) = Inr chunks \<longrightarrow>
       run cfg True vs s =
         Returned (s\<lparr>trace := trace s @
           concat (map2 (\<lambda>i chunk. [Fork i, Send i chunk]) [0..<length chunks] chunks)\<rparr>)
       \<and> \<not> list_ex isSessionCall (newEvents s (run cfg True vs s)))
   \<and> (clusters cfg \<le> 1 \<longrightarrow>
       run cfg isPrimary vs s = runTasks cfg vs s
       \<and> \<not> list_ex isFork (newEvents s (run cfg isPrimary vs s))
       \<and> prefix (desktopStarts (newEvents s (run cfg isPrimary vs s)))
            (map (email \<circ> visit_account) vs)
       \<and> (\<forall>s'. run cfg isPrimary vs s \<noteq> Returned s')
       \<and> (\<forall>c s'. run cfg isPrimary vs s = Exited c s' \<longrightarrow>
             c = 0 \<and> desktopStarts (newEvents s (run cfg isPrimary vs s)) =
                       map (email \<circ> visit_account) vs)
       \<and> ((\<forall>v\<in>set vs.
              (\<forall>t. \<exists>t'. Desktop cfg (visit_account v) (desktop_script v) t = Returned t')
            \<and> (\<forall>t. \<exists>t'. Mobile cfg (visit_account v) (mobile_script v) t = Returned t'))
           \<longrightarrow> (\<exists>s'. run cfg isPrimary vs s = Exited 0 s')
               \<and> desktopStarts (newEvents s (run cfg isPrimary vs s)) =
                   map (email \<circ> visit_account) vs))"
proof (intro conjI impI)
  assume h: "1 < clusters cfg \<and> chunkArray (map visit_account vs) (clusters cfg) = Inr chunks"
  then show r: "run cfg True vs s =
         Returned (s\<lparr>trace := trace s @
           concat (map2 (\<lambda>i chunk. [Fork i, Send i chunk]) [0..<length chunks] chunks)\<rparr>)"
    using forkWorkers_closed [of 0 chunks s] by (simp add: run_def runMaster_def)
  show "\<not> list_ex isSessionCall (newEvents s (run cfg True vs s))"
    unfolding r using fork_events_no_session [of "zip [0..<length chunks] chunks"]
    by (simp add: newEvents_def)
next
  assume k: "clusters cfg \<le> 1"
  then show r: "run cfg isPrimary vs s = runTasks cfg vs s"
    by (simp add: run_def)
  note A = runTasks_accounts [of s cfg vs]
  show "\<not> list_ex isFork (newEvents s (run cfg isPrimary vs s))"
    unfolding r by (rule runTasks_no_fork)
  show "prefix (desktopStarts (newEvents s (run cfg isPrimary vs s)))
            (map (email \<circ> visit_account) vs)"
    unfolding r by (rule A [THEN conjunct1])
  show "\<forall>s'. run cfg isPrimary vs s \<noteq> Returned s'"
    unfolding r by (rule A [THEN conjunct2, THEN conjunct1])
  show "\<forall>c s'. run cfg isPrimary vs s = Exited c s' \<longrightarrow>
             c = 0 \<and> desktopStarts (newEvents s (run cfg isPrimary vs s)) =
                       map (email \<circ> visit_account) vs"
    unfolding r by (rule A [THEN conjunct2, THEN conjunct2, THEN conjunct1])
next
  assume k: "clusters cfg \<le> 1"
    and ok: "\<forall>v\<in>set vs.
              (\<forall>t. \<exists>t'. Desktop cfg (visit_account v) (desktop_script v) t = Returned t')
            \<and> (\<forall>t. \<exists>t'. Mobile cfg (visit_account v) (mobile_script v) t = Returned t')"
  have r: "run cfg isPrimary vs s = runTasks cfg vs s"
    using k by (simp add: run_def)
  note B = runTasks_accounts [of s cfg vs, THEN conjunct2, THEN conjunct2, THEN conjunct2,
      THEN mp, OF ok]
  show "\<exists>s'. run cfg isPrimary vs s = Exited 0 s'"
    unfolding r by (rule B [THEN conjunct1])
  show "desktopStarts (newEvents s (run cfg isPrimary vs s)) = map (email \<circ> visit_account) vs"
    unfolding r by (rule B [THEN conjunct2])
qed


theorem run_roles_witness:
  "run (demo_config\<lparr>clusters := 2\<rparr>) True
       [demo_visit, demo_visit\<lparr>visit_account := demo_account\<lparr>email := ''c@d''\<rparr>\<rparr>, demo_visit]
       (newBot (demo_config\<lparr>clusters := 2\<rparr>)) =
     Returned ((newBot (demo_config\<lparr>clusters := 2\<rparr>))\<lparr>trace :=
       [Fork 0, Send 0 [demo_account, demo_account\<lparr>email := ''c@d''\<rparr>],
        Fork 1, Send 1 [demo_account]]\<rparr>)
   \<and> clusters demo_config \<le> 1
   \<and> \<not> list_ex isFork (newEvents (newBot demo_config)
         (run demo_config True
            [demo_visit,
             \<lparr>visit_account = demo_account\<lparr>email := ''c@d''\<rparr>,
              desktop_script = demo_script\<lparr>getEarnablePoints_ans := Inr 0\<rparr>,
              mobile_script = demo_script\<rparr>]
            (newBot demo_config)))
   \<and> (\<exists>s'. run demo_config True
            [demo_visit,
             \<lparr>visit_account = demo_account\<lparr>email := ''c@d''\<rparr>,
              desktop_script = demo_script\<lparr>getEarnablePoints_ans := Inr 0\<rparr>,
              mobile_script = demo_script\<rparr>]
            (newBot demo_config) = Exited 0 s')
   \<and> desktopStarts (newEvents (newBot demo_config)
         (run demo_config True
            [demo_visit,
             \<lparr>visit_account = demo_account\<lparr>email := ''c@d''\<rparr>,
              desktop_script = demo_script\<lparr>getEarnablePoints_ans := Inr 0\<rparr>,
              mobile_script = demo_script\<rparr>]
            (newBot demo_config))) = [''a@b'', ''c@d'']"
proof -
  let ?cfg = "demo_config\<lparr>clusters := 2\<rparr>"
  let ?vs = "[demo_visit, demo_visit\<lparr>visit_account := demo_account\<lparr>email := ''c@d''\<rparr>\<rparr>, demo_visit]"
  let ?chunks = "[[demo_account, demo_account\<lparr>email := ''c@d''\<rparr>], [demo_account]]"
  let ?gated = "\<lparr>visit_account = demo_account\<lparr>email := ''c@d''\<rparr>,
              desktop_script = demo_script\<lparr>getEarnablePoints_ans := Inr 0\<rparr>,
              mobile_script = demo_script\<rparr>"
  let ?ws = "[demo_visit, ?gated]"
  have h: "1 < clusters ?cfg" by simp
  have c0: "chunkArray [demo_account, demo_account\<lparr>email := ''c@d''\<rparr>, demo_account] 2 =
      Inr ?chunks"
    by code_simp
  then have c: "chunkArray (map visit_account ?vs) (clusters ?cfg) = Inr ?chunks"
    by (simp add: demo_visit_def)
  have k: "clusters demo_config \<le> 1" by (simp add: demo_config_def)
  from run_roles [where cfg = ?cfg and vs = ?vs and chunks = ?chunks, THEN conjunct1] h c
  have 1: "run ?cfg True ?vs (newBot ?cfg) =
     Returned ((newBot ?cfg)\<lparr>trace :=
       [Fork 0, Send 0 [demo_account, demo_account\<lparr>email := ''c@d''\<rparr>],
        Fork 1, Send 1 [demo_account]]\<rparr>)"
    by (simp add: newBot_def upt_conv_Cons)
  have ok: "\<forall>v\<in>set ?ws.
      (\<forall>t. \<exists>t'. Desktop demo_config (visit_account v) (desktop_script v) t = Returned t')
    \<and> (\<forall>t. \<exists>t'. Mobile demo_config (visit_account v) (mobile_script v) t = Returned t')"
    by (simp add: Desktop_def Mobile_def openSession_def body_defs demo_account_def
        demo_config_def demo_script_def demo_visit_def)
  have e: "map (email \<circ> visit_account) ?ws = [''a@b'', ''c@d'']"
    by (simp add: demo_visit_def demo_account_def)
  note R = run_roles [where cfg = demo_config and vs = ?ws and isPrimary = True
      and s = "newBot demo_config", THEN conjunct2, THEN mp, OF k]
  have 2: "\<not> list_ex isFork (newEvents (newBot demo_config)
      (run demo_config True ?ws (newBot demo_config)))"
    by (rule R [THEN conjunct2, THEN conjunct1])
  note F = R [THEN conjunct2, THEN conjunct2, THEN conjunct2, THEN conjunct2, THEN conjunct2,
      THEN mp, OF ok]
  have 3: "\<exists>s'. run demo_config True ?ws (newBot demo_config) = Exited 0 s'"
    by (rule F [THEN conjunct1])
  have 4: "desktopStarts (newEvents (newBot demo_config)
      (run demo_config True ?ws (newBot demo_config))) = [''a@b'', ''c@d'']"
    using F [THEN conjunct2] unfolding e .
  show ?thesis
    by (intro conjI 1 k 2 3 4)
qed

end
